theory Spec2Isabelle
  imports Complex_Main
begin

section \<open>Readability analysis: syllable estimation, tokenisation filters, metrics\<close>

text \<open>
  A shallow embedding of \<^verbatim>\<open>readability_tools.py\<close>. Python strings are modelled as
  \<^typ>\<open>string\<close> over ASCII: the character classes of \<^verbatim>\<open>str.isalpha\<close>,
  \<^verbatim>\<open>str.isalnum\<close>, \<^verbatim>\<open>str.isdigit\<close>, \<^verbatim>\<open>\d\<close> and \<^verbatim>\<open>\w\<close> are their ASCII
  parts, and a character outside ASCII is neither a letter nor a digit. Python's floats
  are modelled by exact rationals, so no rounding error of the float arithmetic is
  represented. The collaborators that are not code of the repository (the CMU
  pronunciation dictionary, the NLTK word and sentence tokenisers, the NLTK tagger) are
  parameters of the functions that use them.
\<close>

subsection \<open>Errors\<close>

datatype error = IndexError | KeyError | StatisticsError | ZeroDivisionError | ValueError

subsection \<open>String primitives of Python\<close>

definition ascii_lowercase :: string where
  "ascii_lowercase = ''abcdefghijklmnopqrstuvwxyz''"

definition ascii_uppercase :: string where
  "ascii_uppercase = ''ABCDEFGHIJKLMNOPQRSTUVWXYZ''"

definition is_letter :: "char \<Rightarrow> bool" where
  "is_letter c = (c \<in> set ascii_lowercase \<or> c \<in> set ascii_uppercase)"

definition is_digit :: "char \<Rightarrow> bool" where
  "is_digit c = (c \<in> set ''0123456789'')"

definition is_alnum_char :: "char \<Rightarrow> bool" where
  "is_alnum_char c = (is_letter c \<or> is_digit c)"

text \<open>The class \<^verbatim>\<open>\w\<close> of Python's regular expressions.\<close>

definition is_word_char :: "char \<Rightarrow> bool" where
  "is_word_char c = (is_alnum_char c \<or> c = CHR ''_'')"

text \<open>\<^verbatim>\<open>str.isalpha\<close> and \<^verbatim>\<open>str.isalnum\<close>: false on the empty string.\<close>

definition isalpha :: "string \<Rightarrow> bool" where
  "isalpha s = (s \<noteq> [] \<and> list_all is_letter s)"

definition isalnum :: "string \<Rightarrow> bool" where
  "isalnum s = (s \<noteq> [] \<and> list_all is_alnum_char s)"

definition lower_char :: "char \<Rightarrow> char" where
  "lower_char c = (case map_of (zip ascii_uppercase ascii_lowercase) c of
                     Some l \<Rightarrow> l | None \<Rightarrow> c)"

definition lower :: "string \<Rightarrow> string" where
  "lower s = map lower_char s"

definition endswith :: "string \<Rightarrow> string \<Rightarrow> bool" where
  "endswith s suf = (length suf \<le> length s \<and> drop (length s - length suf) s = suf)"

text \<open>\<^verbatim>\<open>sub in s\<close> on strings: \<open>sub\<close> occurs in \<open>s\<close> as a contiguous substring.\<close>

fun contains :: "string \<Rightarrow> string \<Rightarrow> bool" where
  "contains sub [] = (sub = [])"
| "contains sub (c # cs) = (take (length sub) (c # cs) = sub \<or> contains sub cs)"

text \<open>\<^verbatim>\<open>s.split(sep)\<close> for a one-character separator: empty pieces are kept.\<close>

fun split_on :: "char \<Rightarrow> string \<Rightarrow> string list" where
  "split_on sep [] = [[]]"
| "split_on sep (c # cs) =
     (if c = sep then [] # split_on sep cs
      else (case split_on sep cs of
              [] \<Rightarrow> [[c]]
            | p # ps \<Rightarrow> (c # p) # ps))"

text \<open>\<^verbatim>\<open>word.strip('-')\<close>: leading and trailing hyphens are removed.\<close>

definition strip_hyphen :: "string \<Rightarrow> string" where
  "strip_hyphen s =
     rev (dropWhile (\<lambda>c. c = CHR ''-'') (rev (dropWhile (\<lambda>c. c = CHR ''-'') s)))"

text \<open>\<^verbatim>\<open>sep.join(xs)\<close>.\<close>

fun join :: "string \<Rightarrow> string list \<Rightarrow> string" where
  "join sep [] = []"
| "join sep [x] = x"
| "join sep (x # y # ys) = x @ sep @ join sep (y # ys)"

text \<open>
  A slice \<^verbatim>\<open>xs[i:j]\<close>: a negative bound counts from the end, and every bound is
  clipped to the list.
\<close>

definition slice_bound :: "int \<Rightarrow> nat \<Rightarrow> nat" where
  "slice_bound i n = (if i < 0 then nat (max 0 (i + int n)) else min (nat i) n)"

definition py_slice :: "'a list \<Rightarrow> int \<Rightarrow> int \<Rightarrow> 'a list" where
  "py_slice xs i j =
     (let a = slice_bound i (length xs); b = slice_bound j (length xs)
      in take (b - a) (drop a xs))"

subsection \<open>Numeric primitives of Python\<close>

text \<open>
  \<^verbatim>\<open>round(x)\<close> rounds to the nearest integer and a tie to the even neighbour;
  \<^verbatim>\<open>math.floor\<close> is \<^const>\<open>floor\<close>.
\<close>

definition py_round :: "rat \<Rightarrow> int" where
  "py_round q =
     (let f = \<lfloor>q\<rfloor>; r = q - of_int f
      in if r < 1 / 2 then f
         else if 1 / 2 < r then f + 1
         else if even f then f else f + 1)"

text \<open>
  \<^verbatim>\<open>round(math.sqrt(k))\<close> for a count \<open>k\<close>: the square root of a natural number is
  never half way between two integers, so the result is the least \<open>r\<close> with
  \<open>k \<le> r\<^sup>2 + r\<close>, found by searching upwards.
\<close>

fun round_sqrt_from :: "nat \<Rightarrow> nat \<Rightarrow> nat \<Rightarrow> nat" where
  "round_sqrt_from 0 r k = r"
| "round_sqrt_from (Suc fuel) r k =
     (if k \<le> r * r + r then r else round_sqrt_from fuel (Suc r) k)"

definition round_sqrt :: "nat \<Rightarrow> nat" where
  "round_sqrt k = round_sqrt_from k 0 k"

text \<open>\<^verbatim>\<open>statistics.mean\<close> of a non-empty list of integers.\<close>

definition mean :: "int list \<Rightarrow> error + rat" where
  "mean xs = (if xs = [] then Inl StatisticsError
              else Inr (of_int (sum_list xs) / of_nat (length xs)))"

text \<open>
  \<^verbatim>\<open>statistics.mode\<close> (Python 3.8 and later): the counts of the values are kept in
  the order in which the values first occur in the data, and the result is the first
  value with the highest count. Only empty data raise \<^verbatim>\<open>StatisticsError\<close>.
\<close>

definition maxfreq :: "int list \<Rightarrow> nat" where
  "maxfreq xs = foldr max (map (count_list xs) xs) 0"

definition first_occurrences :: "int list \<Rightarrow> int list" where
  "first_occurrences xs = rev (remdups (rev xs))"

definition mode_table :: "int list \<Rightarrow> int list" where
  "mode_table xs = filter (\<lambda>x. count_list xs x = maxfreq xs) (first_occurrences xs)"

definition mode :: "int list \<Rightarrow> error + int" where
  "mode xs = (case mode_table xs of [] \<Rightarrow> Inl StatisticsError | m # _ \<Rightarrow> Inr m)"

subsection \<open>The regular expressions of the source\<close>

text \<open>\<^verbatim>\<open>re.search("[^-a-zA-Z]", word)\<close>: some character is neither a hyphen nor a letter.\<close>

definition re_other :: "string \<Rightarrow> bool" where
  "re_other word = list_ex (\<lambda>c. c \<noteq> CHR ''-'' \<and> \<not> is_letter c) word"

text \<open>
  \<^verbatim>\<open>re.search("[a-zA-Z]+\-[a-zA-Z]+", word)\<close>: a letter, a hyphen and a letter in a
  row somewhere in the word.
\<close>

fun re_hyphenated :: "string \<Rightarrow> bool" where
  "re_hyphenated (a # b # c # cs) =
     ((is_letter a \<and> b = CHR ''-'' \<and> is_letter c) \<or> re_hyphenated (b # c # cs))"
| "re_hyphenated _ = False"

text \<open>
  \<^verbatim>\<open>re.search("[a-zA-Z]+\-\B", word)\<close>: a letter and a hyphen, and after the hyphen no
  word boundary. The hyphen is not a word character, so there is no boundary exactly
  when the word ends there or goes on with another character that is not a word
  character.
\<close>

fun re_trailing :: "string \<Rightarrow> bool" where
  "re_trailing (a # b # cs) =
     ((is_letter a \<and> b = CHR ''-'' \<and> (case cs of [] \<Rightarrow> True | c # _ \<Rightarrow> \<not> is_word_char c))
      \<or> re_trailing (b # cs))"
| "re_trailing _ = False"

subsection \<open>The fallback estimator \<^verbatim>\<open>syllables\<close>\<close>

definition vowels :: string where
  "vowels = ''aeiouy''"

text \<open>
  The loop \<^verbatim>\<open>for index in range(1, len(word))\<close>: \<open>prev\<close> is \<^verbatim>\<open>word[index - 1]\<close>
  and the list holds the characters from \<^verbatim>\<open>word[index]\<close> on.
\<close>

fun onset_loop :: "char \<Rightarrow> string \<Rightarrow> int \<Rightarrow> int" where
  "onset_loop prev [] count = count"
| "onset_loop prev (c # cs) count =
     onset_loop c cs (if c \<in> set vowels \<and> prev \<notin> set vowels then count + 1 else count)"

definition syllables :: "string \<Rightarrow> error + int" where
  "syllables word0 =
     (let word = lower word0 in
      case word of
        [] \<Rightarrow> Inl IndexError
      | c0 # rest \<Rightarrow>
          (let count = (if c0 \<in> set vowels then 1 else 0);
               count = onset_loop c0 rest count;
               count = (if endswith word ''e'' then count - 1 else count);
               count = (if endswith word ''le'' then count + 1 else count);
               count = (if endswith word ''sm'' then count + 1 else count);
               count = (if endswith word ''thm'' then count + 1 else count);
               count = (if count = 0 then count + 1 else count)
           in Inr count))"

subsection \<open>The syllable counter \<^verbatim>\<open>nsyl\<close>\<close>

text \<open>
  The pronunciation dictionary \<^verbatim>\<open>d\<close>: a word has a list of pronunciations, a
  pronunciation is a list of phonemes, a phoneme is a string.
\<close>

type_synonym phoneme = string
type_synonym cmudict = "string \<rightharpoonup> phoneme list list"

definition lookup :: "cmudict \<Rightarrow> string \<Rightarrow> error + phoneme list list" where
  "lookup d k = (case d k of None \<Rightarrow> Inl KeyError | Some v \<Rightarrow> Inr v)"

text \<open>
  The inner loop over one pronunciation: \<^verbatim>\<open>phoneme[-1]\<close> raises \<^verbatim>\<open>IndexError\<close> on an
  empty phoneme; the result is \<^verbatim>\<open>len(syl_count)\<close>.
\<close>

fun count_stressed :: "phoneme list \<Rightarrow> int \<Rightarrow> error + int" where
  "count_stressed [] n = Inr n"
| "count_stressed (phoneme # rest) n =
     (if phoneme = [] then Inl IndexError
      else count_stressed rest (if is_digit (last phoneme) then n + 1 else n))"

text \<open>The outer loop, which builds \<^verbatim>\<open>syl_list\<close>.\<close>

fun build_syl_list :: "phoneme list list \<Rightarrow> error + int list" where
  "build_syl_list [] = Inr []"
| "build_syl_list (phoneme_set # rest) =
     (case count_stressed phoneme_set 0 of
        Inl e \<Rightarrow> Inl e
      | Inr n \<Rightarrow> (case build_syl_list rest of Inl e \<Rightarrow> Inl e | Inr ns \<Rightarrow> Inr (n # ns)))"

text \<open>The body of the \<^verbatim>\<open>try\<close> block.\<close>

definition nsyl_try :: "cmudict \<Rightarrow> string \<Rightarrow> error + int" where
  "nsyl_try d word =
     (case lookup d (lower word) of
        Inl e \<Rightarrow> Inl e
      | Inr phoneme_list \<Rightarrow>
          (case build_syl_list phoneme_list of
             Inl e \<Rightarrow> Inl e
           | Inr syl_list \<Rightarrow>
               if word = ''US'' then Inr 2
               else if word = ''us'' then Inr 1
               else if word = ''separate'' then Inr 2
               else if length syl_list > 1 then
                 (case mode syl_list of
                    Inr val \<Rightarrow> Inr val
                  | Inl StatisticsError \<Rightarrow>
                      (case mean syl_list of Inl e \<Rightarrow> Inl e | Inr m \<Rightarrow> Inr (py_round m))
                  | Inl e \<Rightarrow> Inl e)
               else (case syl_list of [] \<Rightarrow> Inl IndexError | x # _ \<Rightarrow> Inr x)))"

text \<open>The handler \<^verbatim>\<open>except KeyError\<close>.\<close>

definition nsyl_except :: "string \<Rightarrow> error + int" where
  "nsyl_except word =
     (if lower word = ''facebook'' then Inr 2
      else if lower word = ''thefacebook'' then Inr 3
      else if lower word = ''tumblr'' then Inr 2
      else syllables word)"

definition nsyl_alpha :: "cmudict \<Rightarrow> string \<Rightarrow> error + int" where
  "nsyl_alpha d word =
     (case nsyl_try d word of
        Inl KeyError \<Rightarrow> nsyl_except word
      | r \<Rightarrow> r)"

text \<open>
  The loop that adds up the counts of the pieces of a hyphenated word. A piece whose
  count raises, or never comes back, ends the loop with that outcome.
\<close>

fun sum_outcomes :: "(error + int) option list \<Rightarrow> int \<Rightarrow> (error + int) option" where
  "sum_outcomes [] syl_count = Some (Inr syl_count)"
| "sum_outcomes (r # rs) syl_count =
     (case r of
        None \<Rightarrow> None
      | Some (Inl e) \<Rightarrow> Some (Inl e)
      | Some (Inr word_syllables) \<Rightarrow> sum_outcomes rs (syl_count + word_syllables))"

text \<open>
  \<^verbatim>\<open>nsyl\<close> calls itself, and nothing in the source bounds the depth, so the model
  carries fuel: the first argument bounds the depth of the recursion, and \<open>None\<close> says
  that the call did not return within it.
\<close>

fun nsyl :: "nat \<Rightarrow> cmudict \<Rightarrow> string \<Rightarrow> (error + int) option" where
  "nsyl 0 d word = None"
| "nsyl (Suc fuel) d word =
     (if isalpha word then Some (nsyl_alpha d word)
      else if CHR ''-'' \<in> set word then
        (if re_other word then Some (Inr 1)
         else if re_hyphenated word then
           sum_outcomes (map (nsyl fuel d) (split_on CHR ''-'' word)) 0
         else if re_trailing word then nsyl fuel d (strip_hyphen word)
         else Some (Inr 1))
      else Some (Inr 1))"

subsection \<open>The tokeniser filters\<close>

text \<open>
  \<^verbatim>\<open>re.search("'[a-zA-z]+", word)\<close>: an apostrophe followed by a character of
  \<^verbatim>\<open>[a-zA-z]\<close>. The range \<^verbatim>\<open>A-z\<close> of the source runs over the code points 65 to 122,
  so besides the letters it holds the six characters between \<^verbatim>\<open>Z\<close> and \<^verbatim>\<open>a\<close>.
\<close>

definition is_A_to_z :: "char \<Rightarrow> bool" where
  "is_A_to_z c = (is_letter c \<or> c \<in> set [CHR ''['', CHR 0x5C, CHR '']'', CHR ''^'', CHR ''_'', CHR 0x60])"

fun re_apostrophe :: "string \<Rightarrow> bool" where
  "re_apostrophe (a # b # cs) = ((a = CHR 0x27 \<and> is_A_to_z b) \<or> re_apostrophe (b # cs))"
| "re_apostrophe _ = False"

text \<open>
  \<^verbatim>\<open>re.search("[a-zA-Z]+\.[a-zA-Z]+\.[a-zA-Z]+(\/[a-zA-Z0-9]*)", word)\<close>. A run of
  letters is followed by a character that is not a letter, so the run is matched to its
  end; \<open>letters1\<close> gives what is left after a non-empty run. The group at the end has no
  quantifier: the slash is required, and what follows the slash may be empty.
\<close>

definition letters1 :: "string \<Rightarrow> string option" where
  "letters1 s = (case s of
                   [] \<Rightarrow> None
                 | c # cs \<Rightarrow> if is_letter c then Some (dropWhile is_letter cs) else None)"

definition url_at :: "string \<Rightarrow> bool" where
  "url_at s =
     (case letters1 s of
        Some (p # r1) \<Rightarrow>
          p = CHR ''.'' \<and>
          (case letters1 r1 of
             Some (q # r2) \<Rightarrow>
               q = CHR ''.'' \<and>
               (case letters1 r2 of
                  Some (sl # r3) \<Rightarrow> sl = CHR ''/''
                | _ \<Rightarrow> False)
           | _ \<Rightarrow> False)
      | _ \<Rightarrow> False)"

fun re_url :: "string \<Rightarrow> bool" where
  "re_url [] = False"
| "re_url (c # cs) = (url_at (c # cs) \<or> re_url cs)"

text \<open>\<^verbatim>\<open>re.search("\d+\.\d+", word)\<close>: a digit, a dot and a digit in a row.\<close>

fun re_decimal :: "string \<Rightarrow> bool" where
  "re_decimal (a # b # c # cs) =
     ((is_digit a \<and> b = CHR ''.'' \<and> is_digit c) \<or> re_decimal (b # c # cs))"
| "re_decimal _ = False"

text \<open>\<^verbatim>\<open>re.search("[a-zA-Z0-9]+", word)\<close>.\<close>

definition re_alnum :: "string \<Rightarrow> bool" where
  "re_alnum word = list_ex is_alnum_char word"

text \<open>The condition of the comprehension in \<^verbatim>\<open>get_words_list\<close>.\<close>

definition keep_word :: "string \<Rightarrow> bool" where
  "keep_word word =
     (isalnum word \<or> re_apostrophe word \<or> re_url word \<or> re_decimal word
      \<or> (CHR ''-'' \<in> set word \<and> re_alnum word))"

text \<open>
  \<^verbatim>\<open>nltk.word_tokenize\<close> and \<^verbatim>\<open>nltk.sent_tokenize\<close> are parameters.
\<close>

type_synonym tokenizer = "string \<Rightarrow> string list"

definition get_words_list :: "tokenizer \<Rightarrow> string \<Rightarrow> string list" where
  "get_words_list word_tokenize input_text = filter keep_word (word_tokenize input_text)"

definition get_sentence_list :: "tokenizer \<Rightarrow> string \<Rightarrow> string list" where
  "get_sentence_list sent_tokenize input_text =
     filter (list_ex is_letter) (sent_tokenize input_text)"

subsection \<open>SMOG\<close>

definition smog_start :: "string list \<Rightarrow> string list" where
  "smog_start sentence_list = py_slice sentence_list 0 9"

definition smog_middle :: "string list \<Rightarrow> string list" where
  "smog_middle sentence_list =
     (let total_sentences = int (length sentence_list)
      in py_slice sentence_list
           \<lfloor>(of_int total_sentences :: rat) / 2 - 5\<rfloor>
           (py_round (of_int total_sentences / 2 - 5)))"

definition smog_end :: "string list \<Rightarrow> string list" where
  "smog_end sentence_list =
     py_slice sentence_list (int (length sentence_list) - 10) (int (length sentence_list))"

definition smog_selection :: "string list \<Rightarrow> string" where
  "smog_selection sentence_list =
     join '' '' (smog_start sentence_list) @ join '' '' (smog_middle sentence_list)
       @ join '' '' (smog_end sentence_list)"

text \<open>
  The loop \<^verbatim>\<open>for word in words_list: if nsyl(word) >= 3: difficult_words += 1\<close>, over
  the outcomes of the calls of \<^verbatim>\<open>nsyl\<close>.
\<close>

fun count_difficult :: "(error + int) option list \<Rightarrow> nat \<Rightarrow> (error + nat) option" where
  "count_difficult [] difficult_words = Some (Inr difficult_words)"
| "count_difficult (r # rs) difficult_words =
     (case r of
        None \<Rightarrow> None
      | Some (Inl e) \<Rightarrow> Some (Inl e)
      | Some (Inr n) \<Rightarrow>
          count_difficult rs (if 3 \<le> n then difficult_words + 1 else difficult_words))"

text \<open>The part of \<^verbatim>\<open>smog\<close> after the sample is chosen.\<close>

definition smog_score :: "tokenizer \<Rightarrow> nat \<Rightarrow> cmudict \<Rightarrow> string \<Rightarrow> (error + int) option" where
  "smog_score word_tokenize fuel d selection =
     (let words_list = get_words_list word_tokenize selection
      in case count_difficult (map (nsyl fuel d) words_list) 0 of
           None \<Rightarrow> None
         | Some (Inl e) \<Rightarrow> Some (Inl e)
         | Some (Inr difficult_words) \<Rightarrow>
             (let nearest_square = round_sqrt difficult_words
              in Some (Inr (int nearest_square + 3))))"

definition smog :: "tokenizer \<Rightarrow> tokenizer \<Rightarrow> nat \<Rightarrow> cmudict \<Rightarrow> string \<Rightarrow> (error + int) option" where
  "smog word_tokenize sent_tokenize fuel d input_text =
     (let sentence_list = get_sentence_list sent_tokenize input_text;
          selection = smog_selection sentence_list
      in smog_score word_tokenize fuel d selection)"

subsection \<open>The Gunning fog index\<close>

text \<open>
  The condition of the loop of \<^verbatim>\<open>gfi\<close>, for a word, its tag and its syllable count.
  The parenthesised conjunction is a Boolean, so \<^verbatim>\<open>(...) is False\<close> is its negation.
\<close>

definition is_complex :: "string \<Rightarrow> string \<Rightarrow> int \<Rightarrow> bool" where
  "is_complex current_word current_tag n =
     (3 \<le> n \<and> \<not> contains ''NNP'' current_tag \<and> CHR ''-'' \<notin> set current_word
      \<and> \<not> (n = 3 \<and> contains ''VB'' current_tag
             \<and> (endswith current_word ''es'' \<or> endswith current_word ''ed''
                 \<or> endswith current_word ''ing'')))"

fun count_complex :: "nat \<Rightarrow> cmudict \<Rightarrow> (string \<times> string) list \<Rightarrow> nat \<Rightarrow> (error + nat) option" where
  "count_complex fuel d [] complex_words = Some (Inr complex_words)"
| "count_complex fuel d (item # items) complex_words =
     (case nsyl fuel d (fst item) of
        None \<Rightarrow> None
      | Some (Inl e) \<Rightarrow> Some (Inl e)
      | Some (Inr word_syllables) \<Rightarrow>
          count_complex fuel d items
            (if is_complex (fst item) (snd item) word_syllables
             then complex_words + 1 else complex_words))"

text \<open>\<^verbatim>\<open>a / b\<close> on integers: true division, which raises on a zero divisor.\<close>

definition py_div :: "nat \<Rightarrow> nat \<Rightarrow> error + rat" where
  "py_div a b = (if b = 0 then Inl ZeroDivisionError else Inr (of_nat a / of_nat b))"

text \<open>\<^verbatim>\<open>nltk.pos_tag\<close> is a parameter: it gives a list of pairs of a word and its tag.\<close>

type_synonym tagger = "string list \<Rightarrow> (string \<times> string) list"

definition gfi :: "tokenizer \<Rightarrow> tokenizer \<Rightarrow> tagger \<Rightarrow> nat \<Rightarrow> cmudict \<Rightarrow> string \<Rightarrow> (error + rat) option" where
  "gfi word_tokenize sent_tokenize pos_tag fuel d input_text =
     (let words_list = get_words_list word_tokenize input_text;
          total_words = length words_list;
          sentence_list = get_sentence_list sent_tokenize input_text;
          total_sentences = length sentence_list;
          tagged_words_list = pos_tag words_list
      in case count_complex fuel d tagged_words_list 0 of
           None \<Rightarrow> None
         | Some (Inl e) \<Rightarrow> Some (Inl e)
         | Some (Inr complex_words) \<Rightarrow>
             (case py_div total_words total_sentences of
                Inl e \<Rightarrow> Some (Inl e)
              | Inr avg_sentence_len \<Rightarrow>
                  (case py_div complex_words total_words of
                     Inl e \<Rightarrow> Some (Inl e)
                   | Inr percentage_complex_words \<Rightarrow>
                       Some (Inr ((avg_sentence_len + percentage_complex_words) * (4 / 10))))))"

subsection \<open>The age converters\<close>

text \<open>
  Modelled from the spec: the interpolant built by \<^verbatim>\<open>interp1d\<close>, which is not code of
  the repository. It is linear between adjacent points of the table, taken here in
  ascending order of the metric, and it raises \<^verbatim>\<open>ValueError\<close> outside the table.
\<close>

fun interp1d :: "(rat \<times> rat) list \<Rightarrow> rat \<Rightarrow> error + rat" where
  "interp1d (p0 # p1 # ps) v =
     (if fst p0 \<le> v \<and> v \<le> fst p1
      then Inr (snd p0 + (v - fst p0) * (snd p1 - snd p0) / (fst p1 - fst p0))
      else interp1d (p1 # ps) v)"
| "interp1d _ v = Inl ValueError"

text \<open>
  A converter returns a string at the two ends of its table and the interpolated number
  in between.
\<close>

datatype value_out = Str string | Num rat

definition ipol_result :: "error + rat \<Rightarrow> error + value_out" where
  "ipol_result r = (case r of Inl e \<Rightarrow> Inl e | Inr v \<Rightarrow> Inr (Num v))"

definition fres_table :: "(rat \<times> rat) list" where
  "fres_table = [(30, 24), (50, 18), (60, 15), (70, 13), (80, 12), (90, 11), (100, 10)]"

definition convert_fres :: "rat \<Rightarrow> error + value_out" where
  "convert_fres fres_value =
     (if fres_value < 30 then Inr (Str ''24'')
      else if 100 < fres_value then Inr (Str ''10'')
      else ipol_result (interp1d fres_table fres_value))"

definition ari_table :: "(rat \<times> rat) list" where
  "ari_table = zip [1, 2, 3, 4, 5, 6, 7, 8, 9, 10, 11, 12, 13, 14]
                   [5, 6, 7, 9, 10, 11, 12, 13, 14, 15, 16, 17, 18, 24]"

definition convert_ari :: "rat \<Rightarrow> error + value_out" where
  "convert_ari ari_value =
     (if 14 < ari_value then Inr (Str ''24'')
      else if ari_value < 1 then Inr (Str ''5'')
      else ipol_result (interp1d ari_table ari_value))"

definition gfi_table :: "(rat \<times> rat) list" where
  "gfi_table = zip [6, 7, 8, 9, 10, 11, 12, 13, 14, 15, 16, 17]
                   [11, 12, 13, 14, 15, 16, 17, 19, 20, 21, 23, 24]"

definition convert_gfi :: "rat \<Rightarrow> error + value_out" where
  "convert_gfi gfi_value =
     (if 17 < gfi_value then Inr (Str ''24'')
      else if gfi_value < 6 then Inr (Str ''11'')
      else ipol_result (interp1d gfi_table gfi_value))"

subsection \<open>The specification's side\<close>

text \<open>
  The definitions of this subsection follow the words of the specification, not the
  source; the theorems below compare them with the code.
\<close>

text \<open>
  The number of vowel-cluster onsets: a position holds a vowel and is the first one, or
  the position before it holds no vowel.
\<close>

definition onsets :: "string \<Rightarrow> nat" where
  "onsets w =
     length (filter (\<lambda>i. w ! i \<in> set vowels \<and> (i = 0 \<or> w ! (i - 1) \<notin> set vowels))
               [0..<length w])"

text \<open>The heuristic: the onsets, the four adjustments, and the clamp to a minimum of 1.\<close>

definition syllables_spec :: "string \<Rightarrow> int" where
  "syllables_spec word =
     (let w = lower word
      in max 1 (int (onsets w)
                - (if endswith w ''e'' then 1 else 0)
                + (if endswith w ''le'' then 1 else 0)
                + (if endswith w ''sm'' then 1 else 0)
                + (if endswith w ''thm'' then 1 else 0)))"

text \<open>
  The syllable count of one pronunciation: the number of its phonemes whose last
  character is a digit.
\<close>

definition stress_count :: "phoneme list \<Rightarrow> int" where
  "stress_count p = int (length (filter (\<lambda>phoneme. is_digit (last phoneme)) p))"

text \<open>\<open>m\<close> is the unique statistical mode of \<open>xs\<close>: it occurs more often than any other value.\<close>

definition unique_mode :: "int list \<Rightarrow> int \<Rightarrow> bool" where
  "unique_mode xs m = (m \<in> set xs \<and> (\<forall>x \<in> set xs. x \<noteq> m \<longrightarrow> count_list xs x < count_list xs m))"

text \<open>
  An entry of the dictionary as the pronunciations of a real word are: at least one
  pronunciation, no empty phoneme, and in every pronunciation a phoneme that ends in a
  stress digit.
\<close>

definition wf_entry :: "phoneme list list \<Rightarrow> bool" where
  "wf_entry variants =
     (variants \<noteq> [] \<and>
      list_all (\<lambda>p. list_all (\<lambda>phoneme. phoneme \<noteq> []) p
                     \<and> list_ex (\<lambda>phoneme. is_digit (last phoneme)) p) variants)"

text \<open>
  The keys under which \<^verbatim>\<open>nsyl\<close> can consult the dictionary for a word: the
  lowercased word itself, its form without outer hyphens and its hyphen pieces, as far
  as they are alphabetic.
\<close>

definition looked_up :: "string \<Rightarrow> string list" where
  "looked_up word =
     map lower (filter isalpha (word # strip_hyphen word # split_on CHR ''-'' word))"

text \<open>
  The words that \<^verbatim>\<open>nsyl\<close> sends to its third hyphen branch and that are still not
  alphabetic once their outer hyphens are stripped.
\<close>

definition strip_loops :: "string \<Rightarrow> bool" where
  "strip_loops word =
     (\<not> isalpha word \<and> CHR ''-'' \<in> set word \<and> \<not> re_other word \<and> \<not> re_hyphenated word
      \<and> re_trailing word \<and> \<not> isalpha (strip_hyphen word))"

text \<open>
  The SMOG sample as the specification describes it: the first ten sentences, the
  middle slice and the last ten sentences.
\<close>

definition smog_selection_spec :: "string list \<Rightarrow> string" where
  "smog_selection_spec sentence_list =
     join '' '' (take 10 sentence_list) @ join '' '' (smog_middle sentence_list)
       @ join '' '' (drop (length sentence_list - 10) sentence_list)"

subsection \<open>Stand-ins for the tokenisers\<close>

text \<open>
  Two small tokenisers for the concrete evaluations below: words are separated by
  spaces, sentences end at a full stop.
\<close>

definition simple_word_tokenize :: tokenizer where
  "simple_word_tokenize t = filter (\<lambda>w. w \<noteq> []) (split_on CHR '' '' t)"

definition simple_sent_tokenize :: tokenizer where
  "simple_sent_tokenize t =
     filter (\<lambda>s. s \<noteq> []) (map (dropWhile (\<lambda>c. c = CHR '' '')) (split_on CHR ''.'' t))"

text \<open>A tagger that calls every word a common noun.\<close>

definition noun_tagger :: tagger where
  "noun_tagger ws = map (\<lambda>w. (w, ''NN'')) ws"

section \<open>Properties\<close>

lemmas char_class_defs =
  is_letter_def is_digit_def is_alnum_char_def is_word_char_def
  ascii_lowercase_def ascii_uppercase_def

subsection \<open>Termination of \<^verbatim>\<open>nsyl\<close>\<close>

text \<open>
  Claim C3 says that \<^verbatim>\<open>nsyl\<close> terminates on every input string. On the word
  \<^verbatim>\<open>a--b\<close> it does not: the word has only letters and hyphens, no letter-hyphen-letter
  run, and the third pattern matches at \<^verbatim>\<open>a-\<close> because no word boundary follows the
  first hyphen; stripping the outer hyphens leaves the word as it is, and \<^verbatim>\<open>nsyl\<close>
  calls itself on the same word again. Whatever the fuel and the dictionary, the call
  does not return.
\<close>

theorem nsyl_double_hyphen_never_returns: "nsyl n d ''a--b'' = None"
proof (induction n)
  case 0
  show ?case by simp
next
  case (Suc n)
  have "nsyl (Suc n) d ''a--b'' = nsyl n d ''a--b''"
    by (simp add: isalpha_def re_other_def strip_hyphen_def char_class_defs)
  with Suc show ?case by simp
qed

subsection \<open>The age converters\<close>

text \<open>What the converters give outside their tables, for every input.\<close>

lemma convert_clamps_to_string:
  "(v < 30 \<longrightarrow> convert_fres v = Inr (Str ''24'')) \<and>
   (100 < v \<longrightarrow> convert_fres v = Inr (Str ''10'')) \<and>
   (v < 1 \<longrightarrow> convert_ari v = Inr (Str ''5'')) \<and>
   (14 < v \<longrightarrow> convert_ari v = Inr (Str ''24'')) \<and>
   (v < 6 \<longrightarrow> convert_gfi v = Inr (Str ''11'')) \<and>
   (17 < v \<longrightarrow> convert_gfi v = Inr (Str ''24''))"
  by (simp add: convert_fres_def convert_ari_def convert_gfi_def)

text \<open>
  Claim C6 says that the converters clamp an input outside the table to the boundary
  age: \<^verbatim>\<open>convert_fres(20) == 24\<close> and so on. The docstrings of the three converters
  promise a float, and inside the table a number is returned (\<^verbatim>\<open>convert_fres(65)\<close> is
  14). At the six inputs of the claim the source returns a string instead, the digits
  of the boundary age, and a string is not equal to the number.
\<close>

theorem convert_clamps_return_strings:
  "convert_fres 20 = Inr (Str ''24'') \<and> convert_fres 110 = Inr (Str ''10'') \<and>
   convert_ari 0 = Inr (Str ''5'') \<and> convert_ari 20 = Inr (Str ''24'') \<and>
   convert_gfi 3 = Inr (Str ''11'') \<and> convert_gfi 20 = Inr (Str ''24'') \<and>
   convert_fres 20 \<noteq> Inr (Num 24) \<and> convert_fres 110 \<noteq> Inr (Num 10) \<and>
   convert_ari 0 \<noteq> Inr (Num 5) \<and> convert_ari 20 \<noteq> Inr (Num 24) \<and>
   convert_gfi 3 \<noteq> Inr (Num 11) \<and> convert_gfi 20 \<noteq> Inr (Num 24) \<and>
   convert_fres 65 = Inr (Num 14)"
  by (simp add: convert_fres_def convert_ari_def convert_gfi_def ipol_result_def fres_table_def)

subsection \<open>The filter of \<^verbatim>\<open>get_words_list\<close>\<close>

lemma no_alnum_no_url: "\<not> list_ex is_alnum_char w \<Longrightarrow> \<not> re_url w"
proof (induction w)
  case Nil
  show ?case by simp
next
  case (Cons c cs)
  then show ?case
    by (auto simp: url_at_def letters1_def is_alnum_char_def)
qed

text \<open>
  The dotted-domain pattern: a non-empty run of letters, a dot, a second run, a dot, a
  third run and a slash, anywhere in the token.
\<close>

lemma dot_slash_not_letter: "\<not> is_letter CHR ''.''" "\<not> is_letter CHR ''/''"
  by (simp_all add: char_class_defs)

lemma letters1_run:
  assumes "isalpha a" and "r = [] \<or> \<not> is_letter (hd r)"
  shows "letters1 (a @ r) = Some r"
proof -
  from assms(1) obtain x a' where a: "a = x # a'" "is_letter x" "\<forall>c \<in> set a'. is_letter c"
    by (cases a) (auto simp: isalpha_def list_all_iff)
  from a(3) have "dropWhile is_letter (a' @ r) = dropWhile is_letter r"
    by (simp add: dropWhile_append2)
  also from assms(2) have "dropWhile is_letter r = r" by (cases r) auto
  finally show ?thesis using a(1,2) by (simp add: letters1_def)
qed

lemma letters1_split: "letters1 s = Some r \<Longrightarrow> \<exists>a. s = a @ r \<and> isalpha a"
proof -
  assume l: "letters1 s = Some r"
  then obtain c cs where s: "s = c # cs" "is_letter c" "r = dropWhile is_letter cs"
    by (cases s) (auto simp: letters1_def split: if_splits)
  let ?a = "c # takeWhile is_letter cs"
  have "s = ?a @ r" by (simp add: s(1,3))
  moreover have "isalpha ?a"
    using s(2) by (auto simp: isalpha_def list_all_iff dest: set_takeWhileD)
  ultimately show ?thesis by blast
qed

lemma url_at_intro:
  assumes "isalpha a" "isalpha b" "isalpha c"
  shows "url_at (a @ ''.'' @ b @ ''.'' @ c @ ''/'' @ rest)"
proof -
  have 1: "letters1 (a @ CHR ''.'' # b @ CHR ''.'' # c @ CHR ''/'' # rest)
           = Some (CHR ''.'' # b @ CHR ''.'' # c @ CHR ''/'' # rest)"
    using letters1_run [OF assms(1)] dot_slash_not_letter by simp
  have 2: "letters1 (b @ CHR ''.'' # c @ CHR ''/'' # rest) = Some (CHR ''.'' # c @ CHR ''/'' # rest)"
    using letters1_run [OF assms(2)] dot_slash_not_letter by simp
  have 3: "letters1 (c @ CHR ''/'' # rest) = Some (CHR ''/'' # rest)"
    using letters1_run [OF assms(3)] dot_slash_not_letter by simp
  show ?thesis by (simp add: url_at_def 1 2 3)
qed

lemma url_at_step:
  assumes "case letters1 s of Some (p # r) \<Rightarrow> p = ch \<and> Q r | _ \<Rightarrow> False"
  obtains r where "letters1 s = Some (ch # r)" and "Q r"
  using assms by (auto split: option.splits list.splits)

lemma url_at_last:
  assumes "case letters1 s of Some (p # r) \<Rightarrow> p = ch | _ \<Rightarrow> False"
  obtains r where "letters1 s = Some (ch # r)"
  using assms by (auto split: option.splits list.splits)

lemma url_at_elim:
  assumes "url_at t"
  shows "\<exists>a b c rest. t = a @ ''.'' @ b @ ''.'' @ c @ ''/'' @ rest
           \<and> isalpha a \<and> isalpha b \<and> isalpha c"
proof -
  from assms [unfolded url_at_def] obtain r1
    where l1: "letters1 t = Some (CHR ''.'' # r1)"
      and s1: "case letters1 r1 of
                 Some (q # r2) \<Rightarrow>
                   q = CHR ''.'' \<and>
                   (case letters1 r2 of Some (sl # r3) \<Rightarrow> sl = CHR ''/'' | _ \<Rightarrow> False)
               | _ \<Rightarrow> False"
    by (rule url_at_step)
  from s1 obtain r2
    where l2: "letters1 r1 = Some (CHR ''.'' # r2)"
      and s2: "case letters1 r2 of Some (sl # r3) \<Rightarrow> sl = CHR ''/'' | _ \<Rightarrow> False"
    by (rule url_at_step)
  from s2 obtain r3 where l3: "letters1 r2 = Some (CHR ''/'' # r3)"
    by (rule url_at_last)
  from letters1_split [OF l1] obtain a where a: "t = a @ CHR ''.'' # r1" "isalpha a" by blast
  from letters1_split [OF l2] obtain b where b: "r1 = b @ CHR ''.'' # r2" "isalpha b" by blast
  from letters1_split [OF l3] obtain c where c: "r2 = c @ CHR ''/'' # r3" "isalpha c" by blast
  from a(1) b(1) c(1) have "t = a @ ''.'' @ b @ ''.'' @ c @ ''/'' @ r3" by simp
  with a(2) b(2) c(2) show ?thesis by blast
qed

lemma re_url_append: "url_at t \<Longrightarrow> re_url (pre @ t)"
proof (induction pre)
  case Nil
  then show ?case by (cases t) (simp_all add: url_at_def letters1_def)
next
  case (Cons x pre)
  then show ?case by simp
qed

lemma re_url_suffix: "re_url w \<Longrightarrow> \<exists>pre t. w = pre @ t \<and> url_at t"
proof (induction w)
  case Nil
  then show ?case by simp
next
  case (Cons x w)
  show ?case
  proof (cases "url_at (x # w)")
    case True
    then have "x # w = [] @ (x # w) \<and> url_at (x # w)" by simp
    then show ?thesis by blast
  next
    case False
    with Cons.prems have "re_url w" by simp
    from Cons.IH [OF this] obtain pre t where "w = pre @ t" "url_at t" by blast
    then have "x # w = (x # pre) @ t \<and> url_at t" by simp
    then show ?thesis by blast
  qed
qed

lemma re_url_iff:
  "re_url w \<longleftrightarrow>
     (\<exists>pre a b c rest. w = pre @ a @ ''.'' @ b @ ''.'' @ c @ ''/'' @ rest
        \<and> isalpha a \<and> isalpha b \<and> isalpha c)"
proof
  assume "re_url w"
  from re_url_suffix [OF this] obtain pre t where t: "w = pre @ t" "url_at t" by blast
  from url_at_elim [OF t(2)] obtain a b c rest
    where "t = a @ ''.'' @ b @ ''.'' @ c @ ''/'' @ rest" "isalpha a" "isalpha b" "isalpha c"
    by blast
  with t(1) show "\<exists>pre a b c rest. w = pre @ a @ ''.'' @ b @ ''.'' @ c @ ''/'' @ rest
        \<and> isalpha a \<and> isalpha b \<and> isalpha c" by blast
next
  assume "\<exists>pre a b c rest. w = pre @ a @ ''.'' @ b @ ''.'' @ c @ ''/'' @ rest
        \<and> isalpha a \<and> isalpha b \<and> isalpha c"
  then obtain pre a b c rest
    where w: "w = pre @ a @ ''.'' @ b @ ''.'' @ c @ ''/'' @ rest"
      and l: "isalpha a" "isalpha b" "isalpha c" by blast
  from re_url_append [OF url_at_intro [OF l], of pre rest] show "re_url w"
    by (simp only: w)
qed

text \<open>
  Claim C2 as it is stated fails on its own example: the token \<^verbatim>\<open>example.com/page\<close>
  has two runs of letters around one dot, the pattern of the source asks for three runs
  around two dots, and the token is dropped.
\<close>

theorem url_token_dropped:
  "get_words_list (\<lambda>t. [''See'', ''example.com/page'', ''for'', ''info'', ''.''])
     ''See example.com/page for info.'' = [''See'', ''for'', ''info'']"
  by (simp add: get_words_list_def keep_word_def isalnum_def re_alnum_def url_at_def letters1_def
      char_class_defs)

text \<open>
  Claim C2, as amended. The word list is the list of tokens without the tokens that
  fail the filter; order and repetitions are kept and every kept token is whole. The
  filter keeps every token with the decimal pattern, such as \<^verbatim>\<open>3.5\<close>, every token
  with the apostrophe pattern of the source, such as the contraction \<^verbatim>\<open>don't\<close>, and
  every token with the dotted-domain pattern. That pattern holds exactly of the tokens
  that contain three non-empty runs of letters around two dots with a slash right after
  the third run; the slash is required, and what follows it is free. So
  \<^verbatim>\<open>www.example.com/page\<close> is kept as a single token, while \<^verbatim>\<open>example.com/page\<close>
  (one dot) and \<^verbatim>\<open>www.example.com\<close> (no slash) are dropped. And the filter drops
  every bare-punctuation token: a token with no alphanumeric character, no match of the
  apostrophe pattern, no decimal pattern and no hyphen.
\<close>

theorem get_words_list_filter:
  "get_words_list word_tokenize text = filter keep_word (word_tokenize text) \<and>
   (re_decimal w \<or> re_apostrophe w \<or> re_url w \<longrightarrow> keep_word w) \<and>
   keep_word ''3.5'' \<and> keep_word ''don't'' \<and> keep_word ''www.example.com/page'' \<and>
   \<not> keep_word ''example.com/page'' \<and> \<not> keep_word ''www.example.com'' \<and>
   (re_url w \<longleftrightarrow>
      (\<exists>pre a b c rest. w = pre @ a @ ''.'' @ b @ ''.'' @ c @ ''/'' @ rest
         \<and> isalpha a \<and> isalpha b \<and> isalpha c)) \<and>
   (\<not> list_ex is_alnum_char w \<and> \<not> re_apostrophe w \<and> \<not> re_decimal w \<and> CHR ''-'' \<notin> set w
      \<longrightarrow> \<not> keep_word w)"
proof -
  have a: "get_words_list word_tokenize text = filter keep_word (word_tokenize text)"
    by (simp add: get_words_list_def)
  have k: "re_decimal w \<or> re_apostrophe w \<or> re_url w \<longrightarrow> keep_word w"
    by (simp add: keep_word_def)
  have b: "keep_word ''3.5''"
    by (simp add: keep_word_def char_class_defs)
  have c: "keep_word ''don't''"
    by (simp add: keep_word_def is_A_to_z_def char_class_defs)
  have d: "keep_word ''www.example.com/page''"
    by (simp add: keep_word_def url_at_def letters1_def char_class_defs)
  have f: "\<not> keep_word ''example.com/page''"
    by (simp add: keep_word_def isalnum_def re_alnum_def url_at_def letters1_def char_class_defs)
  have g: "\<not> keep_word ''www.example.com''"
    by (simp add: keep_word_def isalnum_def re_alnum_def url_at_def letters1_def char_class_defs)
  have e: "\<not> list_ex is_alnum_char w \<and> \<not> re_apostrophe w \<and> \<not> re_decimal w
             \<and> CHR ''-'' \<notin> set w \<longrightarrow> \<not> keep_word w"
    using no_alnum_no_url [of w]
    by (auto simp: keep_word_def isalnum_def re_alnum_def list_all_iff list_ex_iff)
  from a k b c d f g re_url_iff [of w] e show ?thesis by blast
qed

theorem get_words_list_filter_witness:
  "get_words_list (\<lambda>t. [''See'', ''www.example.com/page'', '','', ''see'', ''it'', ''.''])
     ''See www.example.com/page, see it.''
     = filter keep_word [''See'', ''www.example.com/page'', '','', ''see'', ''it'', ''.''] \<and>
   keep_word ''www.example.com/page'' \<and>
   (\<exists>pre a b c rest. ''www.example.com/page'' = pre @ a @ ''.'' @ b @ ''.'' @ c @ ''/'' @ rest
      \<and> isalpha a \<and> isalpha b \<and> isalpha c) \<and>
   \<not> keep_word ''.''"
proof -
  let ?tok = "\<lambda>t::string. [''See'', ''www.example.com/page'', '','', ''see'', ''it'', ''.'']"
  let ?text = "''See www.example.com/page, see it.''"
  have u: "re_url ''www.example.com/page''" by code_simp
  have p: "\<not> list_ex is_alnum_char ''.'' \<and> \<not> re_apostrophe ''.'' \<and> \<not> re_decimal ''.''
           \<and> CHR ''-'' \<notin> set ''.''"
    by code_simp
  note t1 = get_words_list_filter [of ?tok ?text "''www.example.com/page''"]
  note t2 = get_words_list_filter [of ?tok ?text "''.''"]
  from t1 have 1: "get_words_list ?tok ?text = filter keep_word (?tok ?text)" by blast
  from t1 u have 2: "keep_word ''www.example.com/page''" by blast
  from t1 u have 3: "\<exists>pre a b c rest. ''www.example.com/page''
        = pre @ a @ ''.'' @ b @ ''.'' @ c @ ''/'' @ rest \<and> isalpha a \<and> isalpha b \<and> isalpha c"
    by blast
  from t2 p have 4: "\<not> keep_word ''.''" by blast
  from 1 2 3 4 show ?thesis by blast
qed

subsection \<open>SMOG\<close>

lemma py_round_of_int: "py_round (of_int k) = k"
  by (simp add: py_round_def)

lemma py_round_half: "py_round (of_int k + 1 / 2) = (if even k then k else k + 1)"
proof -
  have f: "\<lfloor>(of_int k :: rat) + 1 / 2\<rfloor> = k"
    by (rule floor_unique) simp_all
  show ?thesis
    by (simp add: py_round_def f Let_def)
qed

lemma floor_half: "\<lfloor>(of_int k :: rat) + 1 / 2\<rfloor> = k"
  by (rule floor_unique) simp_all

lemma smog_start_long: "9 \<le> length sl \<Longrightarrow> smog_start sl = take 9 sl"
  by (simp add: smog_start_def py_slice_def slice_bound_def)

lemma smog_end_long: "10 \<le> length sl \<Longrightarrow> smog_end sl = drop (length sl - 10) sl"
  by (simp add: smog_end_def py_slice_def slice_bound_def Let_def nat_diff_distrib)

lemma smog_middle_long:
  assumes "10 \<le> length sl"
  shows "smog_middle sl = (if length sl mod 4 = 1 then [sl ! ((length sl - 11) div 2)] else [])"
proof (cases "even (length sl)")
  case True
  then obtain m where m: "length sl = 2 * m" by (auto elim: evenE)
  have q: "(of_int (int (length sl)) :: rat) / 2 - 5 = of_int (int m - 5)"
    by (simp add: m)
  have "length sl mod 4 \<noteq> 1" using m by presburger
  then show ?thesis
    unfolding smog_middle_def Let_def q py_round_of_int floor_of_int
    by (simp add: py_slice_def)
next
  case False
  then obtain m where m: "length sl = 2 * m + 1" by (auto elim: oddE)
  have q: "(of_int (int (length sl)) :: rat) / 2 - 5 = of_int (int m - 5) + 1 / 2"
    by (simp add: m field_simps)
  from assms m have m5: "5 \<le> m" by simp
  have idx: "(length sl - 11) div 2 = m - 5" using m m5 by simp
  have lt: "m - 5 < length sl" using m by simp
  show ?thesis
  proof (cases "even m")
    case True
    then have odd: "odd (int m - 5)" by simp
    have mod: "length sl mod 4 = 1" using m True by presburger
    have sb1: "slice_bound (int m - 5) (length sl) = m - 5"
      using m m5 by (simp add: slice_bound_def nat_diff_distrib)
    have sb2: "slice_bound (int m - 4) (length sl) = m - 4"
      using m m5 by (simp add: slice_bound_def nat_diff_distrib)
    have "take 1 (drop (m - 5) sl) = [sl ! (m - 5)]"
      using lt by (simp add: take_Suc_conv_app_nth hd_drop_conv_nth take_Suc)
    moreover have "m - (4 + (m - 5)) = Suc 0" using m5 by simp
    ultimately show ?thesis
      unfolding smog_middle_def Let_def q py_round_half floor_half
      using odd mod idx by (simp add: py_slice_def sb1 sb2 Let_def)
  next
    case False
    then have ev: "even (int m - 5)" by simp
    have mod: "length sl mod 4 \<noteq> 1" using m False by presburger
    show ?thesis
      unfolding smog_middle_def Let_def q py_round_half floor_half
      using ev mod by (simp add: py_slice_def)
  qed
qed

lemma smog_end_short:
  "length sl \<le> 10 \<Longrightarrow>
   smog_end sl = (if length sl \<le> 5 \<or> length sl = 10 then sl else drop (2 * length sl - 10) sl)"
  by (auto simp: smog_end_def py_slice_def slice_bound_def Let_def max_def nat_diff_distrib
      intro!: arg_cong2 [where f = drop])

lemma count_difficult_returns:
  "\<forall>r \<in> set rs. \<exists>n. r = Some (Inr n) \<Longrightarrow> \<exists>k. count_difficult rs acc = Some (Inr k)"
  by (induction rs arbitrary: acc) auto

lemma smog_selection_Nil: "smog_selection [] = []"
  by (simp add: smog_selection_def smog_start_def smog_middle_def smog_end_def py_slice_def)

lemma round_sqrt_0: "round_sqrt 0 = 0"
  by (simp add: round_sqrt_def)

text \<open>
  Claim C1 says that the sample starts with the first ten sentences. The source takes
  \<^verbatim>\<open>sentence_list[0:9]\<close>, the first nine. On a text of twenty sentences whose tenth
  sentence holds the only word of three syllables, the sample of the source leaves that
  sentence out and \<^verbatim>\<open>smog\<close> returns 3, where the sample of the claim gives 4.
\<close>

theorem smog_omits_tenth_sentence:
  "get_sentence_list simple_sent_tokenize
     ''Go. Go. Go. Go. Go. Go. Go. Go. Go. Beautiful. Go. Go. Go. Go. Go. Go. Go. Go. Go. Go.''
     = replicate 9 ''Go'' @ [''Beautiful''] @ replicate 10 ''Go'' \<and>
   smog_selection (replicate 9 ''Go'' @ [''Beautiful''] @ replicate 10 ''Go'')
     = ''Go Go Go Go Go Go Go Go GoGo Go Go Go Go Go Go Go Go Go'' \<and>
   smog_selection_spec (replicate 9 ''Go'' @ [''Beautiful''] @ replicate 10 ''Go'')
     = ''Go Go Go Go Go Go Go Go Go BeautifulGo Go Go Go Go Go Go Go Go Go'' \<and>
   smog simple_word_tokenize simple_sent_tokenize 1 Map.empty
     ''Go. Go. Go. Go. Go. Go. Go. Go. Go. Beautiful. Go. Go. Go. Go. Go. Go. Go. Go. Go. Go.''
     = Some (Inr 3) \<and>
   smog_score simple_word_tokenize 1 Map.empty
     (smog_selection_spec (replicate 9 ''Go'' @ [''Beautiful''] @ replicate 10 ''Go''))
     = Some (Inr 4)"
  by code_simp

text \<open>
  Claim C10 as it is stated fails on a list of six sentences: the start of the end
  slice is \<open>6 - 10 = -4\<close>, which counts from the end of the list, and the slice holds
  the last four sentences only.
\<close>

theorem smog_end_short_not_whole:
  "length [''One'', ''Two'', ''Three'', ''Four'', ''Five'', ''Six''] \<le> 10 \<and>
   smog_end [''One'', ''Two'', ''Three'', ''Four'', ''Five'', ''Six'']
     \<noteq> [''One'', ''Two'', ''Three'', ''Four'', ''Five'', ''Six'']"
  by (simp add: smog_end_def py_slice_def slice_bound_def)

text \<open>
  Claim C10, as amended: \<^verbatim>\<open>smog\<close> divides by no count. On a text with an empty
  sentence list (and a word tokeniser that finds no token in the empty string) it
  returns 3. For a sentence list of \<open>n \<le> 10\<close> elements the end slice is the whole list
  when \<open>n \<le> 5\<close> or \<open>n = 10\<close>, and the last \<open>10 - n\<close> sentences when \<open>5 < n < 10\<close>. And
  whenever \<^verbatim>\<open>nsyl\<close> returns a count for each word of the sample, \<^verbatim>\<open>smog\<close> returns a
  result, which is at least 3.
\<close>

theorem smog_short_texts:
  "(get_sentence_list sent_tokenize text = [] \<and> word_tokenize [] = []
      \<longrightarrow> smog word_tokenize sent_tokenize fuel d text = Some (Inr 3)) \<and>
   (length sl \<le> 10
      \<longrightarrow> smog_end sl = (if length sl \<le> 5 \<or> length sl = 10 then sl
                          else drop (2 * length sl - 10) sl)) \<and>
   ((\<forall>w \<in> set (get_words_list word_tokenize
                  (smog_selection (get_sentence_list sent_tokenize text))).
        \<exists>n. nsyl fuel d w = Some (Inr n))
      \<longrightarrow> (\<exists>r. smog word_tokenize sent_tokenize fuel d text = Some (Inr r) \<and> 3 \<le> r))"
proof -
  have a: "smog word_tokenize sent_tokenize fuel d text = Some (Inr 3)"
    if "get_sentence_list sent_tokenize text = []" "word_tokenize [] = []"
    using that
    by (simp add: smog_def smog_score_def smog_selection_Nil get_words_list_def round_sqrt_0)
  have c: "\<exists>r. smog word_tokenize sent_tokenize fuel d text = Some (Inr r) \<and> 3 \<le> r"
    if h: "\<forall>w \<in> set (get_words_list word_tokenize
                  (smog_selection (get_sentence_list sent_tokenize text))).
        \<exists>n. nsyl fuel d w = Some (Inr n)"
  proof -
    let ?ws = "get_words_list word_tokenize (smog_selection (get_sentence_list sent_tokenize text))"
    from h have "\<forall>r \<in> set (map (nsyl fuel d) ?ws). \<exists>n. r = Some (Inr n)" by auto
    from count_difficult_returns [OF this]
    obtain k where "count_difficult (map (nsyl fuel d) ?ws) 0 = Some (Inr k)" by blast
    then show ?thesis by (simp add: smog_def smog_score_def)
  qed
  from a smog_end_short [of sl] c show ?thesis by blast
qed

theorem smog_short_texts_witness:
  "smog simple_word_tokenize simple_sent_tokenize 1 Map.empty '''' = Some (Inr 3) \<and>
   smog_end [''One'', ''Two'', ''Three'', ''Four'', ''Five'', ''Six'']
     = [''Three'', ''Four'', ''Five'', ''Six''] \<and>
   (\<exists>r. smog simple_word_tokenize simple_sent_tokenize 1 Map.empty ''We go. You go.''
          = Some (Inr r) \<and> 3 \<le> r)"
proof -
  have h1: "get_sentence_list simple_sent_tokenize '''' = [] \<and> simple_word_tokenize [] = []"
    by code_simp
  have h2: "length [''One'', ''Two'', ''Three'', ''Four'', ''Five'', ''Six''] \<le> 10"
    by simp
  have ws: "get_words_list simple_word_tokenize
              (smog_selection (get_sentence_list simple_sent_tokenize ''We go. You go.''))
            = [''We'', ''go'', ''You'', ''goWe'', ''go'', ''You'', ''go'']"
    by code_simp
  have n: "nsyl 1 Map.empty ''We'' = Some (Inr 1)" "nsyl 1 Map.empty ''go'' = Some (Inr 1)"
    "nsyl 1 Map.empty ''You'' = Some (Inr 1)" "nsyl 1 Map.empty ''goWe'' = Some (Inr 1)"
    by code_simp+
  have h3: "\<forall>w \<in> set (get_words_list simple_word_tokenize
                  (smog_selection (get_sentence_list simple_sent_tokenize ''We go. You go.''))).
        \<exists>n. nsyl 1 Map.empty w = Some (Inr n)"
    unfolding ws using n by simp
  from smog_short_texts [of simple_sent_tokenize "''''" simple_word_tokenize 1 Map.empty] h1
  have 1: "smog simple_word_tokenize simple_sent_tokenize 1 Map.empty '''' = Some (Inr 3)"
    by blast
  from smog_short_texts
         [of _ _ _ _ _ "[''One'', ''Two'', ''Three'', ''Four'', ''Five'', ''Six'']"] h2
  have 2: "smog_end [''One'', ''Two'', ''Three'', ''Four'', ''Five'', ''Six'']
     = [''Three'', ''Four'', ''Five'', ''Six'']"
    by simp
  from smog_short_texts [of simple_sent_tokenize "''We go. You go.''" simple_word_tokenize 1 Map.empty] h3
  have 3: "\<exists>r. smog simple_word_tokenize simple_sent_tokenize 1 Map.empty ''We go. You go.''
          = Some (Inr r) \<and> 3 \<le> r"
    by blast
  from 1 2 3 show ?thesis by blast
qed

subsection \<open>The Gunning fog index\<close>

lemma count_complex_counts:
  "list_all2 (\<lambda>item n. nsyl fuel d (fst item) = Some (Inr n)) tagged counts \<Longrightarrow>
   count_complex fuel d tagged acc =
     Some (Inr (acc + length (filter (\<lambda>(item, n). is_complex (fst item) (snd item) n)
                                (zip tagged counts))))"
proof (induction tagged counts arbitrary: acc rule: list_all2_induct)
  case Nil
  show ?case by simp
next
  case (Cons item tagged n counts)
  then show ?case by simp
qed

text \<open>
  Claim C5: on a text with at least one word and at least one sentence, where
  \<^verbatim>\<open>nsyl\<close> returns a count for every tagged word, \<^verbatim>\<open>gfi\<close> returns
  \<open>(words / sentences + complex / words) * 0.4\<close>, the second summand a plain fraction.
  A tagged word counts as complex exactly when its syllable count is at least 3, its tag
  does not contain \<^verbatim>\<open>NNP\<close>, it has no hyphen, and it is not a word of three syllables
  with a tag containing \<^verbatim>\<open>VB\<close> that ends in \<^verbatim>\<open>es\<close>, \<^verbatim>\<open>ed\<close> or \<^verbatim>\<open>ing\<close>. The
  arithmetic is that of the rationals.
\<close>

theorem gfi_formula:
  assumes words: "words = get_words_list word_tokenize input_text"
    and sents: "sents = get_sentence_list sent_tokenize input_text"
    and nonempty: "0 < length words" "0 < length sents"
    and counts: "list_all2 (\<lambda>item n. nsyl fuel d (fst item) = Some (Inr n)) (pos_tag words) counts"
    and complex: "complex_words =
      length (filter (\<lambda>((w, t), n).
                3 \<le> n \<and> \<not> contains ''NNP'' t \<and> CHR ''-'' \<notin> set w
                \<and> \<not> (n = 3 \<and> contains ''VB'' t
                       \<and> (endswith w ''es'' \<or> endswith w ''ed'' \<or> endswith w ''ing'')))
              (zip (pos_tag words) counts))"
  shows "gfi word_tokenize sent_tokenize pos_tag fuel d input_text =
     Some (Inr ((of_nat (length words) / of_nat (length sents)
                  + of_nat complex_words / of_nat (length words)) * (4 / 10)))"
proof -
  have same: "(\<lambda>(item, n). is_complex (fst item) (snd item) n) =
      (\<lambda>((w, t), n).
                3 \<le> n \<and> \<not> contains ''NNP'' t \<and> CHR ''-'' \<notin> set w
                \<and> \<not> (n = 3 \<and> contains ''VB'' t
                       \<and> (endswith w ''es'' \<or> endswith w ''ed'' \<or> endswith w ''ing'')))"
    by (auto simp: is_complex_def fun_eq_iff)
  have "count_complex fuel d (pos_tag words) 0 = Some (Inr complex_words)"
    using count_complex_counts [OF counts, of 0] by (simp add: complex same)
  with nonempty show ?thesis
    by (simp add: gfi_def Let_def py_div_def words [symmetric] sents [symmetric])
qed

theorem gfi_formula_witness:
  "gfi simple_word_tokenize simple_sent_tokenize noun_tagger 1 Map.empty
     ''We like beautiful days. They are long'' = Some (Inr (19 / 15))"
proof -
  let ?text = "''We like beautiful days. They are long''"
  let ?words = "[''We'', ''like'', ''beautiful'', ''They'', ''are'', ''long'']"
  let ?sents = "[''We like beautiful days'', ''They are long'']"
  let ?counts = "[1, 1, 3, 1, 1, 1] :: int list"
  have w: "?words = get_words_list simple_word_tokenize ?text" by code_simp
  have s: "?sents = get_sentence_list simple_sent_tokenize ?text" by code_simp
  have n: "nsyl 1 Map.empty ''We'' = Some (Inr 1)" "nsyl 1 Map.empty ''like'' = Some (Inr 1)"
    "nsyl 1 Map.empty ''beautiful'' = Some (Inr 3)" "nsyl 1 Map.empty ''They'' = Some (Inr 1)"
    "nsyl 1 Map.empty ''are'' = Some (Inr 1)" "nsyl 1 Map.empty ''long'' = Some (Inr 1)"
    by code_simp+
  have c: "list_all2 (\<lambda>item n. nsyl 1 Map.empty (fst item) = Some (Inr n))
             (noun_tagger ?words) ?counts"
    using n by (simp add: noun_tagger_def del: nsyl.simps)
  have k: "(1::nat) =
      length (filter (\<lambda>((w, t), n).
                3 \<le> n \<and> \<not> contains ''NNP'' t \<and> CHR ''-'' \<notin> set w
                \<and> \<not> (n = 3 \<and> contains ''VB'' t
                       \<and> (endswith w ''es'' \<or> endswith w ''ed'' \<or> endswith w ''ing'')))
              (zip (noun_tagger ?words) ?counts))"
    by (simp add: noun_tagger_def)
  have l: "0 < length ?words" "0 < length ?sents" by simp_all
  from gfi_formula
         [where word_tokenize = simple_word_tokenize and sent_tokenize = simple_sent_tokenize
            and pos_tag = noun_tagger and fuel = 1 and d = Map.empty and input_text = ?text
            and words = ?words and sents = ?sents and counts = ?counts and complex_words = 1,
          OF w s l c k]
  show ?thesis by simp
qed

subsection \<open>The heuristic fallback\<close>

lemma onset_loop_pairs:
  "onset_loop prev cs acc =
     acc + int (length (filter (\<lambda>(p, c). c \<in> set vowels \<and> p \<notin> set vowels) (zip (prev # cs) cs)))"
  by (induction cs arbitrary: prev acc) simp_all

lemma adjacent_pairs: "map (\<lambda>i. (w ! (i - Suc 0), w ! i)) [Suc 0..<length w] = zip w (tl w)"
proof (rule nth_equalityI)
  show "length (map (\<lambda>i. (w ! (i - Suc 0), w ! i)) [Suc 0..<length w]) = length (zip w (tl w))"
    by simp
next
  fix i
  assume "i < length (map (\<lambda>i. (w ! (i - Suc 0), w ! i)) [Suc 0..<length w])"
  then have i: "Suc i < length w" by simp
  then have "Suc 0 + i < length w" by simp
  from nth_upt [OF this] have "[Suc 0..<length w] ! i = Suc i" by simp
  with i show "map (\<lambda>i. (w ! (i - Suc 0), w ! i)) [Suc 0..<length w] ! i = zip w (tl w) ! i"
    by (simp add: nth_tl del: upt_Suc)
qed

lemma onsets_pairs:
  "onsets w = (if w \<noteq> [] \<and> hd w \<in> set vowels then 1 else 0)
     + length (filter (\<lambda>(p, c). c \<in> set vowels \<and> p \<notin> set vowels) (zip w (tl w)))"
proof (cases w)
  case Nil
  then show ?thesis by (simp add: onsets_def)
next
  case (Cons c0 rest)
  let ?P = "\<lambda>i. w ! i \<in> set vowels \<and> (i = 0 \<or> w ! (i - 1) \<notin> set vowels)"
  let ?R = "\<lambda>(p, c). c \<in> set vowels \<and> p \<notin> set vowels"
  have split: "[0..<length w] = 0 # [Suc 0..<length w]"
    using Cons by (simp add: upt_conv_Cons del: upt_Suc)
  have "filter ?P [Suc 0..<length w] = filter (?R \<circ> (\<lambda>i. (w ! (i - Suc 0), w ! i))) [Suc 0..<length w]"
    by (rule filter_cong) auto
  then have "length (filter ?P [Suc 0..<length w])
             = length (filter ?R (map (\<lambda>i. (w ! (i - Suc 0), w ! i)) [Suc 0..<length w]))"
    by (simp only: filter_map length_map)
  then have tail: "length (filter ?P [Suc 0..<length w]) = length (filter ?R (zip w (tl w)))"
    by (simp only: adjacent_pairs)
  have "onsets w = (if ?P 0 then 1 else 0) + length (filter ?P [Suc 0..<length w])"
    unfolding onsets_def split by simp
  with tail Cons show ?thesis by simp
qed

lemma onset_loop_onsets:
  "onset_loop c0 rest (if c0 \<in> set vowels then 1 else 0) = int (onsets (c0 # rest))"
  by (simp add: onset_loop_pairs onsets_pairs)

lemma onset_loop_mono: "acc \<le> onset_loop prev cs acc"
  by (simp add: onset_loop_pairs)

lemma onset_loop_last:
  "last (prev # cs) \<in> set vowels \<Longrightarrow> prev \<notin> set vowels \<Longrightarrow> acc + 1 \<le> onset_loop prev cs acc"
proof (induction cs arbitrary: prev acc)
  case Nil
  then show ?case by simp
next
  case (Cons c cs)
  show ?case
  proof (cases "c \<in> set vowels")
    case True
    with Cons.prems onset_loop_mono [of "acc + 1" c cs] show ?thesis by simp
  next
    case False
    with Cons.prems Cons.IH [of c acc] show ?thesis by simp
  qed
qed

lemma onsets_last_vowel: "w \<noteq> [] \<Longrightarrow> last w \<in> set vowels \<Longrightarrow> 1 \<le> onsets w"
proof (cases w)
  case Nil
  assume "w \<noteq> []" with Nil show ?thesis by simp
next
  case (Cons c0 rest)
  assume lv: "last w \<in> set vowels"
  show ?thesis
  proof (cases "c0 \<in> set vowels")
    case True
    then show ?thesis by (simp add: Cons onsets_pairs)
  next
    case False
    from onset_loop_last [of c0 rest 0] lv False Cons
    have "1 \<le> onset_loop c0 rest 0" by simp
    with False onset_loop_onsets [of c0 rest] show ?thesis by (simp add: Cons)
  qed
qed

lemma endswith_e_last: "endswith w ''e'' \<Longrightarrow> w \<noteq> [] \<and> last w = CHR ''e''"
proof -
  assume e: "endswith w ''e''"
  then have ne: "w \<noteq> []" by (auto simp: endswith_def)
  from e have "drop (length w - 1) w = ''e''" by (simp add: endswith_def)
  moreover have "last (drop (length w - 1) w) = last w" using ne by (simp add: last_drop)
  ultimately show ?thesis using ne by simp
qed

lemma syllables_refines_spec:
  assumes "word \<noteq> []"
  shows "syllables word = Inr (syllables_spec word)"
proof -
  from assms obtain c0 rest where w: "lower word = c0 # rest"
    by (cases word) (auto simp: lower_def)
  have pos: "1 \<le> onsets (c0 # rest)" if "endswith (c0 # rest) ''e''"
  proof -
    from endswith_e_last [OF that] have "last (c0 # rest) \<in> set vowels"
      by (simp add: vowels_def)
    then show ?thesis by (rule onsets_last_vowel [rotated]) simp
  qed
  show ?thesis
    using pos
    by (auto simp: syllables_def syllables_spec_def w Let_def onset_loop_onsets
        simp del: upt_Suc)
qed

text \<open>
  Claim C8: for a non-empty alphabetic word that the dictionary does not hold and that
  is none of the three named entities, \<^verbatim>\<open>nsyl\<close> returns the number of vowel-cluster
  onsets of the lowercased word, minus 1 for a trailing \<^verbatim>\<open>e\<close>, plus 1 for each of the
  trailing \<^verbatim>\<open>le\<close>, \<^verbatim>\<open>sm\<close> and \<^verbatim>\<open>thm\<close>, every adjustment applied whatever the
  others did, and the result clamped to a minimum of 1.
\<close>

theorem nsyl_heuristic_fallback:
  assumes "isalpha word"
    and "d (lower word) = None"
    and "lower word \<notin> {''facebook'', ''thefacebook'', ''tumblr''}"
  shows "nsyl (Suc n) d word = Some (Inr (syllables_spec word))"
proof -
  from assms(1) have ne: "word \<noteq> []" by (simp add: isalpha_def)
  have "nsyl_try d word = Inl KeyError"
    using assms(2) by (simp add: nsyl_try_def lookup_def)
  then have "nsyl_alpha d word = syllables word"
    using assms(3) by (simp add: nsyl_alpha_def nsyl_except_def)
  with assms(1) syllables_refines_spec [OF ne] show ?thesis by simp
qed

theorem nsyl_heuristic_fallback_witness:
  "nsyl (Suc 0) Map.empty ''Rhythm'' = Some (Inr 2) \<and>
   nsyl (Suc 0) Map.empty ''ale'' = Some (Inr 2) \<and>
   nsyl (Suc 0) Map.empty ''the'' = Some (Inr 1)"
proof -
  have a: "isalpha ''Rhythm''" "isalpha ''ale''" "isalpha ''the''" by code_simp+
  have b: "lower ''Rhythm'' \<notin> {''facebook'', ''thefacebook'', ''tumblr''}"
    "lower ''ale'' \<notin> {''facebook'', ''thefacebook'', ''tumblr''}"
    "lower ''the'' \<notin> {''facebook'', ''thefacebook'', ''tumblr''}"
    by code_simp+
  have c: "syllables_spec ''Rhythm'' = 2" "syllables_spec ''ale'' = 2" "syllables_spec ''the'' = 1"
    by code_simp+
  from nsyl_heuristic_fallback [OF a(1) _ b(1), of Map.empty 0]
    nsyl_heuristic_fallback [OF a(2) _ b(2), of Map.empty 0]
    nsyl_heuristic_fallback [OF a(3) _ b(3), of Map.empty 0] c
  show ?thesis by simp
qed

subsection \<open>Hyphenated words\<close>

lemma split_on_nonempty: "split_on sep s \<noteq> []"
  by (induction s) (auto split: list.splits)

lemma split_on_no_sep: "p \<in> set (split_on sep s) \<Longrightarrow> sep \<notin> set p"
proof (induction s arbitrary: p)
  case Nil
  then show ?case by simp
next
  case (Cons c cs)
  show ?case
  proof (cases "c = sep")
    case True
    with Cons show ?thesis by auto
  next
    case False
    obtain q qs where q: "split_on sep cs = q # qs"
      using split_on_nonempty [of sep cs] by (cases "split_on sep cs") auto
    with Cons.prems False have "p = c # q \<or> p \<in> set qs" by simp
    moreover have "sep \<notin> set q" using Cons.IH [of q] q by simp
    moreover have "p \<in> set qs \<Longrightarrow> sep \<notin> set p" using Cons.IH [of p] q by simp
    ultimately show ?thesis using False by auto
  qed
qed

lemma re_hyphenated_has_hyphen: "re_hyphenated w \<Longrightarrow> CHR ''-'' \<in> set w"
  by (induction w rule: re_hyphenated.induct) auto

lemma hyphen_not_letter: "\<not> is_letter CHR ''-''"
  by (simp add: char_class_defs)

lemma hyphen_not_alpha: "CHR ''-'' \<in> set w \<Longrightarrow> \<not> isalpha w"
  using hyphen_not_letter by (auto simp: isalpha_def list_all_iff)

lemma nsyl_no_hyphen:
  "CHR ''-'' \<notin> set p \<Longrightarrow>
   nsyl (Suc k) d p = (if isalpha p then Some (nsyl_alpha d p) else Some (Inr 1))"
  by simp

lemma sum_outcomes_values:
  "sum_outcomes (map (\<lambda>v. Some (Inr v)) vs) acc = Some (Inr (acc + sum_list vs))"
  by (induction vs arbitrary: acc) simp_all

lemma nsyl_split_branch:
  assumes "\<not> re_other word" and "re_hyphenated word"
  shows "nsyl (Suc (Suc n)) d word
         = sum_outcomes (map (nsyl (Suc (Suc n)) d) (split_on CHR ''-'' word)) 0"
proof -
  from assms(2) have h: "CHR ''-'' \<in> set word" by (rule re_hyphenated_has_hyphen)
  then have na: "\<not> isalpha word" by (rule hyphen_not_alpha)
  have m: "map (nsyl (Suc n) d) (split_on CHR ''-'' word)
        = map (nsyl (Suc (Suc n)) d) (split_on CHR ''-'' word)"
  proof (rule map_cong [OF refl])
    fix p
    assume "p \<in> set (split_on CHR ''-'' word)"
    then have "CHR ''-'' \<notin> set p" by (rule split_on_no_sep)
    then show "nsyl (Suc n) d p = nsyl (Suc (Suc n)) d p"
      using nsyl_no_hyphen [of p n d] nsyl_no_hyphen [of p "Suc n" d] by (simp del: nsyl.simps)
  qed
  have "nsyl (Suc (Suc n)) d word
        = sum_outcomes (map (nsyl (Suc n) d) (split_on CHR ''-'' word)) 0"
    using h na assms by simp
  then show ?thesis by (simp only: m)
qed

text \<open>
  Claim C7: for a word of letters and hyphens with a letter-hyphen-letter run,
  \<^verbatim>\<open>nsyl\<close> of the word is the sum of \<^verbatim>\<open>nsyl\<close> over the pieces of the word split at
  its hyphens: the outcome of the loop over the pieces in general, and the arithmetic
  sum of the counts when every piece has one. In particular \<^verbatim>\<open>nsyl("well-known")\<close> is
  \<^verbatim>\<open>nsyl("well") + nsyl("known")\<close>, whatever the dictionary.
\<close>

theorem nsyl_hyphen_additive:
  "(\<not> re_other word \<and> re_hyphenated word \<longrightarrow>
      nsyl (Suc (Suc n)) d word
        = sum_outcomes (map (nsyl (Suc (Suc n)) d) (split_on CHR ''-'' word)) 0 \<and>
      (\<forall>vs. map (nsyl (Suc (Suc n)) d) (split_on CHR ''-'' word) = map (\<lambda>v. Some (Inr v)) vs
         \<longrightarrow> nsyl (Suc (Suc n)) d word = Some (Inr (sum_list vs)))) \<and>
   nsyl (Suc (Suc n)) d ''well-known''
     = sum_outcomes [nsyl (Suc (Suc n)) d ''well'', nsyl (Suc (Suc n)) d ''known''] 0"
proof -
  have wk: "\<not> re_other ''well-known''" "re_hyphenated ''well-known''"
    by (simp_all add: re_other_def char_class_defs)
  have pieces: "split_on CHR ''-'' ''well-known'' = [''well'', ''known'']" by simp
  have inst: "nsyl (Suc (Suc n)) d ''well-known''
     = sum_outcomes [nsyl (Suc (Suc n)) d ''well'', nsyl (Suc (Suc n)) d ''known''] 0"
    using nsyl_split_branch [OF wk, of n d] unfolding pieces by (simp del: nsyl.simps)
  have gen: "nsyl (Suc (Suc n)) d word = Some (Inr (sum_list vs))"
    if "\<not> re_other word" "re_hyphenated word"
      "map (nsyl (Suc (Suc n)) d) (split_on CHR ''-'' word) = map (\<lambda>v. Some (Inr v)) vs" for vs
    using nsyl_split_branch [OF that(1,2), of n d] that(3)
    by (simp only: sum_outcomes_values) simp
  from inst gen nsyl_split_branch [of word n d] show ?thesis by blast
qed

theorem nsyl_hyphen_additive_witness:
  "nsyl (Suc (Suc 0)) (map_of [(''well'', [[''W'', ''EH1'', ''L'']]), (''known'', [[''N'', ''OW1'', ''N'']])])
     ''well-known'' = Some (Inr (sum_list [1, 1])) \<and>
   map (nsyl (Suc (Suc 0))
          (map_of [(''well'', [[''W'', ''EH1'', ''L'']]), (''known'', [[''N'', ''OW1'', ''N'']])]))
     [''well'', ''known''] = [Some (Inr 1), Some (Inr 1)]"
proof -
  let ?d = "map_of [(''well'', [[''W'', ''EH1'', ''L'']]), (''known'', [[''N'', ''OW1'', ''N'']])]"
  have h: "\<not> re_other ''well-known'' \<and> re_hyphenated ''well-known''" by code_simp
  have p: "map (nsyl (Suc (Suc 0)) ?d) (split_on CHR ''-'' ''well-known'')
           = map (\<lambda>v. Some (Inr v)) [1, 1]"
    by code_simp
  have q: "map (nsyl (Suc (Suc 0)) ?d) [''well'', ''known''] = [Some (Inr 1), Some (Inr 1)]"
    by code_simp
  from nsyl_hyphen_additive [of "''well-known''" 0 ?d] h p
  have "nsyl (Suc (Suc 0)) ?d ''well-known'' = Some (Inr (sum_list [1, 1]))" by blast
  with q show ?thesis by blast
qed

subsection \<open>The dictionary branch\<close>

lemma count_stressed_value:
  "[] \<notin> set p \<Longrightarrow> count_stressed p n = Inr (n + stress_count p)"
  by (induction p arbitrary: n) (auto simp: stress_count_def)

lemma build_syl_list_value:
  "\<forall>p \<in> set ps. [] \<notin> set p \<Longrightarrow> build_syl_list ps = Inr (map stress_count ps)"
  by (induction ps) (simp_all add: count_stressed_value)

lemma count_stressed_error: "count_stressed p n = Inl e \<Longrightarrow> e = IndexError"
  by (induction p arbitrary: n) (auto split: if_splits)

lemma build_syl_list_error: "build_syl_list ps = Inl e \<Longrightarrow> e = IndexError"
  by (induction ps) (auto split: sum.splits dest: count_stressed_error)

lemma foldr_max_ge: "y \<in> set ys \<Longrightarrow> y \<le> foldr max ys (0::nat)"
  by (induction ys) auto

lemma foldr_max_in: "ys \<noteq> [] \<Longrightarrow> foldr max ys (0::nat) \<in> set ys"
proof (induction ys)
  case Nil
  then show ?case by simp
next
  case (Cons y ys)
  show ?case
  proof (cases "ys = []")
    case True
    then show ?thesis by simp
  next
    case False
    with Cons.IH show ?thesis by (auto simp: max_def)
  qed
qed

lemma count_le_maxfreq: "x \<in> set xs \<Longrightarrow> count_list xs x \<le> maxfreq xs"
  unfolding maxfreq_def by (rule foldr_max_ge) simp

lemma maxfreq_attained: "xs \<noteq> [] \<Longrightarrow> \<exists>x \<in> set xs. count_list xs x = maxfreq xs"
proof -
  assume "xs \<noteq> []"
  then have "map (count_list xs) xs \<noteq> []" by simp
  from foldr_max_in [OF this] show ?thesis by (auto simp: maxfreq_def)
qed

lemma in_mode_table:
  "x \<in> set (mode_table xs) \<longleftrightarrow> x \<in> set xs \<and> count_list xs x = maxfreq xs"
  by (simp add: mode_table_def first_occurrences_def)

lemma distinct_mode_table: "distinct (mode_table xs)"
  by (simp add: mode_table_def first_occurrences_def)

lemma distinct_singleton: "distinct ys \<Longrightarrow> set ys = {m} \<Longrightarrow> ys = [m]"
proof (cases ys)
  case Nil
  assume "set ys = {m}" with Nil show ?thesis by simp
next
  case (Cons a rest)
  assume d: "distinct ys" and s: "set ys = {m}"
  from s Cons have a: "a = m" by auto
  have "rest = []"
  proof (cases rest)
    case Nil
    then show ?thesis .
  next
    case (Cons b rest')
    with s \<open>ys = a # rest\<close> have "b = m" by auto
    with d a Cons \<open>ys = a # rest\<close> show ?thesis by simp
  qed
  with a Cons show ?thesis by simp
qed

text \<open>On data that are not empty, \<open>mode\<close> returns one of the most common values.\<close>

lemma mode_value:
  assumes "xs \<noteq> []"
  shows "\<exists>m. mode xs = Inr m \<and> m \<in> set xs \<and> count_list xs m = maxfreq xs"
proof -
  from maxfreq_attained [OF assms] obtain x where "x \<in> set xs" "count_list xs x = maxfreq xs"
    by blast
  then have "x \<in> set (mode_table xs)" by (simp only: in_mode_table)
  then obtain m rest where t: "mode_table xs = m # rest" by (cases "mode_table xs") auto
  then have "m \<in> set (mode_table xs)" by simp
  then have "m \<in> set xs" "count_list xs m = maxfreq xs" by (simp_all only: in_mode_table)
  moreover from t have "mode xs = Inr m" by (simp add: mode_def)
  ultimately show ?thesis by blast
qed

lemma mode_error: "mode xs = Inl e \<Longrightarrow> e = StatisticsError \<and> xs = []"
proof -
  assume a: "mode xs = Inl e"
  have "xs = []"
  proof (rule ccontr)
    assume "xs \<noteq> []"
    from mode_value [OF this] a show False by auto
  qed
  moreover from a have "e = StatisticsError" by (auto simp: mode_def split: list.splits)
  ultimately show ?thesis by simp
qed

text \<open>A unique mode is what \<open>mode\<close> returns.\<close>

lemma mode_unique: "unique_mode xs m \<Longrightarrow> mode xs = Inr m"
proof -
  assume u: "unique_mode xs m"
  then have m: "m \<in> set xs" unfolding unique_mode_def by blast
  from u have less: "count_list xs x < count_list xs m" if "x \<in> set xs" "x \<noteq> m" for x
    using that unfolding unique_mode_def by blast
  from m have "xs \<noteq> []" by auto
  from mode_value [OF this]
  obtain x0 where x0: "mode xs = Inr x0" "x0 \<in> set xs" "count_list xs x0 = maxfreq xs"
    by blast
  have "x0 = m"
  proof (rule ccontr)
    assume "x0 \<noteq> m"
    from less [OF x0(2) this] x0(3) count_le_maxfreq [OF m] show False by linarith
  qed
  with x0(1) show ?thesis by simp
qed

lemma py_round_nearest: "\<bar>of_int (py_round q) - q\<bar> \<le> 1 / 2"
proof -
  have "of_int \<lfloor>q\<rfloor> \<le> q" "q < of_int \<lfloor>q\<rfloor> + 1" by linarith+
  then show ?thesis by (auto simp: py_round_def Let_def)
qed

lemma syllables_error: "syllables w = Inl e \<Longrightarrow> e = IndexError"
  by (cases "lower w") (simp_all add: syllables_def Let_def)

lemma nsyl_try_error: "nsyl_try d w = Inl e \<Longrightarrow> e = KeyError \<or> e = IndexError"
proof -
  assume a: "nsyl_try d w = Inl e"
  show ?thesis
  proof (cases "d (lower w)")
    case None
    with a show ?thesis by (simp add: nsyl_try_def lookup_def)
  next
    case (Some ps)
    show ?thesis
    proof (cases "build_syl_list ps")
      case (Inl e')
      with a Some build_syl_list_error [OF Inl] show ?thesis
        by (simp add: nsyl_try_def lookup_def)
    next
      case (Inr syl_list)
      show ?thesis
      proof (cases "mode syl_list")
        case (Inl e')
        from mode_error [OF this] have e': "e' = StatisticsError" "syl_list = []" by simp_all
        from a Some Inr Inl e' show ?thesis
          by (simp add: nsyl_try_def lookup_def split: if_splits)
      next
        case (Inr val)
        with a Some \<open>build_syl_list ps = Inr syl_list\<close> show ?thesis
          by (simp add: nsyl_try_def lookup_def split: if_splits list.splits)
      qed
    qed
  qed
qed

lemma nsyl_alpha_error: "nsyl_alpha d w = Inl e \<Longrightarrow> e = IndexError"
proof -
  assume a: "nsyl_alpha d w = Inl e"
  show ?thesis
  proof (cases "nsyl_try d w")
    case (Inr v)
    with a show ?thesis by (simp add: nsyl_alpha_def)
  next
    case (Inl e')
    from nsyl_try_error [OF this] consider "e' = KeyError" | "e' = IndexError" by blast
    then show ?thesis
    proof cases
      case 1
      with Inl a have "nsyl_except w = Inl e" by (simp add: nsyl_alpha_def)
      then show ?thesis
        by (auto simp: nsyl_except_def split: if_splits dest: syllables_error)
    next
      case 2
      with Inl a show ?thesis by (simp add: nsyl_alpha_def)
    qed
  qed
qed

lemma sum_outcomes_error:
  "sum_outcomes rs acc = Some (Inl e) \<Longrightarrow> Some (Inl e) \<in> set rs"
  by (induction rs arbitrary: acc) (auto split: option.splits sum.splits)

lemma nsyl_error: "nsyl k d w = Some (Inl e) \<Longrightarrow> e = IndexError"
proof (induction k d w rule: nsyl.induct)
  case (1 d word)
  then show ?case by simp
next
  case (2 fuel d word)
  show ?case
  proof (cases "isalpha word")
    case True
    with "2.prems" show ?thesis by (auto dest: nsyl_alpha_error)
  next
    case na: False
    show ?thesis
    proof (cases "CHR ''-'' \<in> set word \<and> \<not> re_other word")
      case False
      with na "2.prems" show ?thesis by (auto split: if_splits)
    next
      case h: True
      show ?thesis
      proof (cases "re_hyphenated word")
        case True
        with na h "2.prems"
        have "sum_outcomes (map (nsyl fuel d) (split_on CHR ''-'' word)) 0 = Some (Inl e)"
          by simp
        from sum_outcomes_error [OF this]
        obtain p where "p \<in> set (split_on CHR ''-'' word)" "nsyl fuel d p = Some (Inl e)"
          by auto
        with "2.IH"(1) [of p] na h True show ?thesis by simp
      next
        case False
        with na h "2.prems" "2.IH"(2) show ?thesis by (auto split: if_splits)
      qed
    qed
  qed
qed

text \<open>
  What the dictionary branch does for a word with several pronunciations: the result
  is one of the most common counts, and the unique mode when there is one. The handler
  with the rounded mean is never entered.
\<close>

lemma nsyl_several_variants:
  assumes "isalpha word"
    and "d (lower word) = Some variants"
    and "1 < length variants"
    and "word \<notin> {''US'', ''us'', ''separate''}"
    and "\<forall>p \<in> set variants. [] \<notin> set p"
  shows "\<exists>m. nsyl (Suc n) d word = Some (Inr m) \<and> mode (map stress_count variants) = Inr m
           \<and> m \<in> set (map stress_count variants)
           \<and> count_list (map stress_count variants) m = maxfreq (map stress_count variants)"
proof -
  let ?counts = "map stress_count variants"
  have b: "build_syl_list variants = Inr ?counts"
    using assms(5) by (rule build_syl_list_value)
  from assms(3) have ne: "?counts \<noteq> []" by auto
  from mode_value [OF ne]
  obtain m where m: "mode ?counts = Inr m" "m \<in> set ?counts"
    "count_list ?counts m = maxfreq ?counts" by blast
  from assms(2-4) b m(1) have "nsyl_try d word = Inr m"
    by (simp add: nsyl_try_def lookup_def)
  then have "nsyl_alpha d word = Inr m" by (simp add: nsyl_alpha_def)
  with assms(1) have "nsyl (Suc n) d word = Some (Inr m)" by simp
  with m show ?thesis by blast
qed

lemma nsyl_never_key_or_statistics_error:
  "nsyl k d w \<noteq> Some (Inl KeyError) \<and> nsyl k d w \<noteq> Some (Inl StatisticsError)"
  using nsyl_error [of k d w KeyError] nsyl_error [of k d w StatisticsError] by auto

text \<open>
  Claim C9 says that without a unique mode \<^verbatim>\<open>nsyl\<close> returns the rounded mean of the
  counts, and the source has a handler that computes it. The handler is never entered:
  \<^verbatim>\<open>statistics.mode\<close> raises on empty data only and on a tie returns the first of the
  most common values. For the word \<^verbatim>\<open>actual\<close>, with one pronunciation of three
  syllables and one of two, the counts are 3 and 2, each once; \<^verbatim>\<open>nsyl\<close> returns 3,
  and the rounded mean of the claim is 2.
\<close>

theorem nsyl_tie_takes_first_count:
  "nsyl (Suc 0)
     (map_of [(''actual'', [[''AE1'', ''K'', ''CH'', ''AH0'', ''W'', ''AH0'', ''L''],
                            [''AE1'', ''K'', ''SH'', ''AH0'', ''L'']])])
     ''actual'' = Some (Inr 3) \<and>
   map stress_count [[''AE1'', ''K'', ''CH'', ''AH0'', ''W'', ''AH0'', ''L''],
                     [''AE1'', ''K'', ''SH'', ''AH0'', ''L'']] = [3, 2] \<and>
   count_list [3, 2 :: int] 3 = count_list [3, 2 :: int] 2 \<and>
   py_round (of_int (sum_list [3, 2]) / of_nat (length [3, 2 :: int])) = 2"
  by code_simp

subsection \<open>The lower bound of the syllable count\<close>

lemma stress_count_pos: "list_ex (\<lambda>phoneme. is_digit (last phoneme)) p \<Longrightarrow> 1 \<le> stress_count p"
proof -
  assume "list_ex (\<lambda>phoneme. is_digit (last phoneme)) p"
  then have "filter (\<lambda>phoneme. is_digit (last phoneme)) p \<noteq> []"
    by (auto simp: list_ex_iff filter_empty_conv)
  then have "length (filter (\<lambda>phoneme. is_digit (last phoneme)) p) \<noteq> 0"
    by (simp only: length_0_conv) simp
  then show ?thesis unfolding stress_count_def by linarith
qed

lemma sum_list_ge_length: "\<forall>x \<in> set xs. (1::int) \<le> x \<Longrightarrow> int (length xs) \<le> sum_list xs"
  by (induction xs) auto

lemma py_round_ge_floor: "\<lfloor>q\<rfloor> \<le> py_round q"
  by (simp add: py_round_def Let_def)

lemma mean_round_pos:
  assumes "xs \<noteq> []" and "\<forall>x \<in> set xs. (1::int) \<le> x"
  shows "1 \<le> py_round (of_int (sum_list xs) / of_nat (length xs))"
proof -
  let ?n = "length xs"
  from assms(1) have n: "0 < ?n" by simp
  from sum_list_ge_length [OF assms(2)] have "(of_nat ?n :: rat) \<le> of_int (sum_list xs)"
    by (metis of_int_le_iff of_int_of_nat_eq)
  with n have "(1::rat) \<le> of_int (sum_list xs) / of_nat ?n"
    by (simp add: le_divide_eq)
  then have "1 \<le> \<lfloor>(of_int (sum_list xs) / of_nat ?n :: rat)\<rfloor>" by (simp add: le_floor_iff)
  with py_round_ge_floor [of "of_int (sum_list xs) / of_nat ?n"] show ?thesis by linarith
qed

lemma syllables_spec_pos: "1 \<le> syllables_spec w"
  by (simp add: syllables_spec_def Let_def)

lemma nsyl_except_pos: "w \<noteq> [] \<Longrightarrow> \<exists>v. nsyl_except w = Inr v \<and> 1 \<le> v"
  using syllables_spec_pos [of w] by (simp add: nsyl_except_def syllables_refines_spec)

lemma nsyl_try_pos:
  assumes d: "d (lower w) = Some variants" and wf: "wf_entry variants"
  shows "\<exists>v. nsyl_try d w = Inr v \<and> 1 \<le> v"
proof -
  let ?counts = "map stress_count variants"
  from wf have ne: "variants \<noteq> []" and ph: "\<forall>p \<in> set variants. [] \<notin> set p"
    and st: "\<forall>p \<in> set variants. list_ex (\<lambda>phoneme. is_digit (last phoneme)) p"
    by (auto simp: wf_entry_def list_all_iff)
  from ph have b: "build_syl_list variants = Inr ?counts" by (rule build_syl_list_value)
  from st have pos: "\<forall>x \<in> set ?counts. 1 \<le> x" by (auto dest: stress_count_pos)
  from ne have cne: "?counts \<noteq> []" by simp
  have unfold: "nsyl_try d w =
      (if w = ''US'' then Inr 2
       else if w = ''us'' then Inr 1
       else if w = ''separate'' then Inr 2
       else if length ?counts > 1 then
         (case mode ?counts of
            Inr val \<Rightarrow> Inr val
          | Inl StatisticsError \<Rightarrow>
              (case mean ?counts of Inl e \<Rightarrow> Inl e | Inr m \<Rightarrow> Inr (py_round m))
          | Inl e \<Rightarrow> Inl e)
       else (case ?counts of [] \<Rightarrow> Inl IndexError | x # _ \<Rightarrow> Inr x))"
    by (simp add: nsyl_try_def lookup_def d b)
  consider "w = ''US''" | "w = ''us''" | "w = ''separate''"
    | "w \<notin> {''US'', ''us'', ''separate''}" "1 < length ?counts"
    | "w \<notin> {''US'', ''us'', ''separate''}" "\<not> 1 < length ?counts" by blast
  then show ?thesis
  proof cases
    case 1
    then show ?thesis unfolding unfold by simp
  next
    case 2
    then show ?thesis unfolding unfold by simp
  next
    case 3
    then show ?thesis unfolding unfold by simp
  next
    case 4
    from mode_value [OF cne] obtain val where v: "mode ?counts = Inr val" "val \<in> set ?counts"
      by blast
    with pos have "1 \<le> val" by blast
    with 4 v(1) show ?thesis unfolding unfold by simp
  next
    case 5
    from cne obtain x rest where c: "?counts = x # rest" by (cases ?counts) auto
    with pos have "1 \<le> x" by (metis list.set_intros(1))
    with 5 c show ?thesis unfolding unfold by simp
  qed
qed

lemma nsyl_alpha_pos:
  assumes wf: "\<forall>variants. d (lower w) = Some variants \<longrightarrow> wf_entry variants" and a: "isalpha w"
  shows "\<exists>v. nsyl_alpha d w = Inr v \<and> 1 \<le> v"
proof (cases "d (lower w)")
  case None
  then have "nsyl_try d w = Inl KeyError" by (simp add: nsyl_try_def lookup_def)
  then have "nsyl_alpha d w = nsyl_except w" by (simp add: nsyl_alpha_def)
  moreover from a have "w \<noteq> []" by (simp add: isalpha_def)
  ultimately show ?thesis using nsyl_except_pos [of w] by simp
next
  case (Some variants)
  with wf have "wf_entry variants" by blast
  from nsyl_try_pos [of d w variants, OF Some this]
  obtain v where "nsyl_try d w = Inr v" "1 \<le> v" by blast
  then show ?thesis by (simp add: nsyl_alpha_def)
qed

lemma looked_up_iff:
  "k \<in> set (looked_up word) \<longleftrightarrow>
     (\<exists>p. (p = word \<or> p = strip_hyphen word \<or> p \<in> set (split_on CHR ''-'' word))
          \<and> isalpha p \<and> k = lower p)"
  by (auto simp: looked_up_def)

lemma sum_outcomes_pos:
  "\<forall>r \<in> set rs. \<exists>v. r = Some (Inr v) \<and> 1 \<le> v \<Longrightarrow>
   \<exists>t. sum_outcomes rs acc = Some (Inr t) \<and> acc + int (length rs) \<le> t"
proof (induction rs arbitrary: acc)
  case Nil
  show ?case by simp
next
  case (Cons r rs)
  from Cons.prems obtain v where v: "r = Some (Inr v)" "1 \<le> v" by auto
  from Cons.prems have "\<forall>r \<in> set rs. \<exists>v. r = Some (Inr v) \<and> 1 \<le> v" by simp
  from Cons.IH [OF this, of "acc + v"]
  obtain t where "sum_outcomes rs (acc + v) = Some (Inr t)" "acc + v + int (length rs) \<le> t"
    by blast
  with v show ?case by simp
qed

text \<open>
  Claim C4 as it is stated fails in the dictionary branch: the count of a word is the
  number of stress-marked phonemes of its pronunciation, and nothing raises it to 1. A
  dictionary entry without a stress digit gives the count 0.
\<close>

theorem zero_stress_entry_counts_zero:
  "nsyl (Suc (Suc 0)) (map_of [(''hmm'', [[''HH'', ''M'']])]) ''hmm'' = Some (Inr 0)"
  by code_simp

text \<open>
  Claim C4, as amended: \<^verbatim>\<open>nsyl\<close> returns an integer of at least 1 on every word, the
  alphabetic and the hyphenated ones in particular, provided that each dictionary entry
  the call consults (the entry of the lowercased word, of its form without outer
  hyphens, or of one of its hyphen pieces) has a pronunciation, no empty phoneme and in
  every pronunciation a stress-marked phoneme, and that the word is not sent to the
  third hyphen branch with a hyphen left inside after stripping. Nothing is asked of
  the other entries of the dictionary. The dictionary branch, the overrides, the
  heuristic and the hyphen branches that return are all covered.
\<close>

theorem nsyl_at_least_one:
  assumes wf: "\<forall>k \<in> set (looked_up word). \<forall>variants. d k = Some variants \<longrightarrow> wf_entry variants"
    and nl: "\<not> strip_loops word"
  shows "\<exists>v. nsyl (Suc (Suc n)) d word = Some (Inr v) \<and> 1 \<le> v"
proof -
  have entry: "\<forall>variants. d (lower p) = Some variants \<longrightarrow> wf_entry variants"
    if "p = word \<or> p = strip_hyphen word \<or> p \<in> set (split_on CHR ''-'' word)" "isalpha p" for p
  proof -
    from that have "lower p \<in> set (looked_up word)" by (simp only: looked_up_iff) blast
    with wf show ?thesis by blast
  qed
  show ?thesis
  proof (cases "isalpha word")
    case True
    from entry [of word] True
    have "\<forall>variants. d (lower word) = Some variants \<longrightarrow> wf_entry variants" by blast
    from nsyl_alpha_pos [of d word, OF this True] True show ?thesis by simp
  next
    case na: False
    show ?thesis
    proof (cases "CHR ''-'' \<in> set word \<and> \<not> re_other word")
      case False
      with na show ?thesis by auto
    next
      case h: True
      show ?thesis
      proof (cases "re_hyphenated word")
        case True
        let ?rs = "map (nsyl (Suc n) d) (split_on CHR ''-'' word)"
        have "\<exists>v. nsyl (Suc n) d p = Some (Inr v) \<and> 1 \<le> v"
          if p: "p \<in> set (split_on CHR ''-'' word)" for p
        proof (cases "isalpha p")
          case True
          from entry [of p] p True
          have "\<forall>variants. d (lower p) = Some variants \<longrightarrow> wf_entry variants" by blast
          from nsyl_alpha_pos [of d p, OF this True] True show ?thesis by simp
        next
          case False
          with split_on_no_sep [OF p] show ?thesis by simp
        qed
        then have "\<forall>r \<in> set ?rs. \<exists>v. r = Some (Inr v) \<and> 1 \<le> v"
          by (auto simp del: nsyl.simps)
        from sum_outcomes_pos [OF this, of 0]
        obtain t where t: "sum_outcomes ?rs 0 = Some (Inr t)" "int (length ?rs) \<le> t" by auto
        have "0 < length ?rs" using split_on_nonempty [of "CHR ''-''" word] by simp
        with t(2) have "1 \<le> t" by linarith
        moreover have "nsyl (Suc (Suc n)) d word = sum_outcomes ?rs 0"
          using na h True by simp
        ultimately show ?thesis using t(1) by (simp del: nsyl.simps)
      next
        case nh: False
        show ?thesis
        proof (cases "re_trailing word")
          case True
          with na h nh nl have sa: "isalpha (strip_hyphen word)" by (simp add: strip_loops_def)
          have "nsyl (Suc (Suc n)) d word = nsyl (Suc n) d (strip_hyphen word)"
            using na h nh True by simp
          also have "\<dots> = Some (nsyl_alpha d (strip_hyphen word))" using sa by simp
          finally have eq: "nsyl (Suc (Suc n)) d word = Some (nsyl_alpha d (strip_hyphen word))" .
          from entry [of "strip_hyphen word"] sa
          have "\<forall>variants. d (lower (strip_hyphen word)) = Some variants \<longrightarrow> wf_entry variants"
            by blast
          from nsyl_alpha_pos [of d "strip_hyphen word", OF this sa] eq show ?thesis
            by (auto simp del: nsyl.simps)
        next
          case False
          with na h nh show ?thesis by simp
        qed
      qed
    qed
  qed
qed

theorem nsyl_at_least_one_witness:
  "\<exists>v. nsyl (Suc (Suc 0))
          (map_of [(''hmm'', [[''HH'', ''M'']]),
                   (''well'', [[''W'', ''EH1'', ''L'']]),
                   (''known'', [[''N'', ''OW1'', ''N'']])])
          ''well-known'' = Some (Inr v) \<and> 1 \<le> v"
proof -
  let ?d = "map_of [(''hmm'', [[''HH'', ''M'']]),
                   (''well'', [[''W'', ''EH1'', ''L'']]),
                   (''known'', [[''N'', ''OW1'', ''N'']])]"
  have l: "looked_up ''well-known'' = [''well'', ''known'']" by code_simp
  have w: "?d ''well'' = Some [[''W'', ''EH1'', ''L'']]" "?d ''known'' = Some [[''N'', ''OW1'', ''N'']]"
    by simp_all
  have e: "wf_entry [[''W'', ''EH1'', ''L'']]" "wf_entry [[''N'', ''OW1'', ''N'']]"
    by code_simp+
  have wf: "\<forall>k \<in> set (looked_up ''well-known''). \<forall>variants. ?d k = Some variants \<longrightarrow> wf_entry variants"
    unfolding l using w e by simp
  have nl: "\<not> strip_loops ''well-known''" by code_simp
  from nsyl_at_least_one [OF wf nl, of 0] show ?thesis .
qed

subsection \<open>The words on which \<^verbatim>\<open>nsyl\<close> returns\<close>

text \<open>
  The words of \<open>strip_loops\<close> are exactly those on which \<^verbatim>\<open>nsyl\<close> does not return:
  stripping such a word gives a word of the same kind, and on every other word two
  levels of recursion are enough.
\<close>

lemma re_hyphenated_Cons: "re_hyphenated w \<Longrightarrow> re_hyphenated (x # w)"
  by (cases w rule: re_hyphenated.cases) auto

lemma re_hyphenated_intro:
  "is_letter a \<Longrightarrow> is_letter c \<Longrightarrow> re_hyphenated (xs @ a # CHR ''-'' # c # ys)"
  by (induction xs) (simp_all add: re_hyphenated_Cons)

lemma re_trailing_Cons: "re_trailing w \<Longrightarrow> re_trailing (x # w)"
  by (cases w rule: re_trailing.cases) auto

lemma re_trailing_intro:
  "is_letter a \<Longrightarrow> ys = [] \<or> \<not> is_word_char (hd ys) \<Longrightarrow> re_trailing (xs @ a # CHR ''-'' # ys)"
proof (induction xs)
  case Nil
  then show ?case by (cases ys) auto
next
  case (Cons x xs)
  then show ?case by (simp add: re_trailing_Cons)
qed

lemma re_hyphenated_elim:
  "re_hyphenated w \<Longrightarrow> \<exists>xs a c ys. w = xs @ a # CHR ''-'' # c # ys \<and> is_letter a \<and> is_letter c"
proof (induction w rule: re_hyphenated.induct)
  case (1 a b c cs)
  show ?case
  proof (cases "is_letter a \<and> b = CHR ''-'' \<and> is_letter c")
    case True
    then have "a # b # c # cs = [] @ a # CHR ''-'' # c # cs" by simp
    with True show ?thesis by blast
  next
    case False
    with "1.prems" have "re_hyphenated (b # c # cs)" by simp
    from "1.IH" [OF this] obtain xs a' c' ys
      where "b # c # cs = xs @ a' # CHR ''-'' # c' # ys" "is_letter a'" "is_letter c'" by blast
    then have "a # b # c # cs = (a # xs) @ a' # CHR ''-'' # c' # ys" by simp
    with \<open>is_letter a'\<close> \<open>is_letter c'\<close> show ?thesis by blast
  qed
qed simp_all

lemma re_trailing_has_letter: "re_trailing w \<Longrightarrow> \<exists>a \<in> set w. is_letter a"
  by (induction w rule: re_trailing.induct) auto

text \<open>What \<open>strip_hyphen\<close> leaves: the word without its outer runs of hyphens.\<close>

lemma rev_dropWhile_split: "rev (dropWhile P (rev m)) @ rev (takeWhile P (rev m)) = m"
proof -
  have "rev (takeWhile P (rev m) @ dropWhile P (rev m)) = rev (rev m)"
    by (simp only: takeWhile_dropWhile_id)
  then show ?thesis by (simp only: rev_rev_ident rev_append)
qed

lemma strip_hyphen_tail:
  "strip_hyphen w @ rev (takeWhile (\<lambda>c. c = CHR ''-'') (rev (dropWhile (\<lambda>c. c = CHR ''-'') w)))
   = dropWhile (\<lambda>c. c = CHR ''-'') w"
  unfolding strip_hyphen_def by (rule rev_dropWhile_split)

lemma strip_hyphen_decomp:
  "\<exists>pre post. w = pre @ strip_hyphen w @ post
      \<and> set pre \<subseteq> {CHR ''-''} \<and> set post \<subseteq> {CHR ''-''}"
proof -
  let ?pre = "takeWhile (\<lambda>c. c = CHR ''-'') w"
  let ?post = "rev (takeWhile (\<lambda>c. c = CHR ''-'') (rev (dropWhile (\<lambda>c. c = CHR ''-'') w)))"
  have "?pre @ strip_hyphen w @ ?post = w"
    by (simp only: strip_hyphen_tail takeWhile_dropWhile_id)
  then have 1: "w = ?pre @ strip_hyphen w @ ?post" by (rule sym)
  have 3: "set ?pre \<subseteq> {CHR ''-''}"
    by (auto dest: set_takeWhileD)
  have 4: "set ?post \<subseteq> {CHR ''-''}"
    by (auto dest: set_takeWhileD)
  from 1 3 4 show ?thesis by blast
qed

lemma strip_hyphen_ends:
  assumes "strip_hyphen w \<noteq> []"
  shows "hd (strip_hyphen w) \<noteq> CHR ''-''" and "last (strip_hyphen w) \<noteq> CHR ''-''"
proof -
  define m where "m = dropWhile (\<lambda>c. c = CHR ''-'') w"
  define r where "r = dropWhile (\<lambda>c. c = CHR ''-'') (rev m)"
  have s: "strip_hyphen w = rev r" by (simp add: strip_hyphen_def r_def m_def)
  with assms have rne: "r \<noteq> []" by simp
  then have "\<not> (hd r = CHR ''-'')" unfolding r_def by (rule hd_dropWhile)
  moreover from rne have "last (rev r) = hd r" by (simp add: last_rev)
  ultimately show "last (strip_hyphen w) \<noteq> CHR ''-''" by (simp only: s) simp
  from strip_hyphen_tail [of w] obtain post where t: "strip_hyphen w @ post = m"
    unfolding m_def by blast
  with assms have mne: "m \<noteq> []" by auto
  then have "\<not> (hd m = CHR ''-'')" unfolding m_def by (rule hd_dropWhile)
  moreover from t assms have "hd m = hd (strip_hyphen w)" by (auto simp: hd_append)
  ultimately show "hd (strip_hyphen w) \<noteq> CHR ''-''" by simp
qed

lemma strip_hyphen_fixed:
  assumes "s \<noteq> []" "hd s \<noteq> CHR ''-''" "last s \<noteq> CHR ''-''"
  shows "strip_hyphen s = s"
proof -
  from assms(1,2) have 1: "dropWhile (\<lambda>c. c = CHR ''-'') s = s" by (cases s) auto
  from assms(1,3) have "hd (rev s) \<noteq> CHR ''-''" by (simp add: hd_rev)
  with assms(1) have 2: "dropWhile (\<lambda>c. c = CHR ''-'') (rev s) = rev s" by (cases "rev s") auto
  show ?thesis by (simp add: strip_hyphen_def 1 2)
qed

lemma strip_loops_closed:
  assumes "strip_loops w"
  shows "strip_loops (strip_hyphen w)"
proof -
  define s where "s = strip_hyphen w"
  from assms have no: "\<not> re_other w" and nh: "\<not> re_hyphenated w" and tr: "re_trailing w"
    and na: "\<not> isalpha s"
    by (simp_all add: strip_loops_def s_def)
  from strip_hyphen_decomp [of w] obtain pre post
    where d: "w = pre @ s @ post" "set pre \<subseteq> {CHR ''-''}" "set post \<subseteq> {CHR ''-''}"
    unfolding s_def by blast
  have sw: "set w = set pre \<union> set s \<union> set post"
    by (subst d(1)) auto
  then have sub: "set s \<subseteq> set w" by blast
  from no have chars: "c = CHR ''-'' \<or> is_letter c" if "c \<in> set w" for c
    using that by (auto simp: re_other_def list_ex_iff)
  from re_trailing_has_letter [OF tr] obtain a where a: "a \<in> set w" "is_letter a" by blast
  with hyphen_not_letter have "a \<noteq> CHR ''-''" by auto
  with a(1) sw d(2,3) have "a \<in> set s" by blast
  then have sne: "s \<noteq> []" by auto
  from strip_hyphen_ends [of w] sne have ends: "hd s \<noteq> CHR ''-''" "last s \<noteq> CHR ''-''"
    unfolding s_def by blast+
  from na sne obtain c where "c \<in> set s" "\<not> is_letter c"
    by (auto simp: isalpha_def list_all_iff)
  with chars sub have hy: "CHR ''-'' \<in> set s" by blast
  have no': "\<not> re_other s"
    using chars sub by (auto simp: re_other_def list_ex_iff)
  have nh': "\<not> re_hyphenated s"
  proof
    assume "re_hyphenated s"
    from re_hyphenated_elim [OF this] obtain xs a c ys
      where x: "s = xs @ a # CHR ''-'' # c # ys" "is_letter a" "is_letter c" by blast
    have "w = (pre @ xs) @ a # CHR ''-'' # c # (ys @ post)"
      by (subst d(1)) (simp add: x(1))
    with re_hyphenated_intro [OF x(2,3), of "pre @ xs" "ys @ post"]
    have "re_hyphenated w" by (simp only:)
    with nh show False by simp
  qed
  have tr': "re_trailing s"
  proof -
    from split_list_first [OF hy] obtain xs ys
      where sp: "s = xs @ CHR ''-'' # ys" "CHR ''-'' \<notin> set xs" by blast
    from sp(1) ends(1) have xne: "xs \<noteq> []" by (cases xs) auto
    then obtain xs' a where xs: "xs = xs' @ [a]" by (cases xs rule: rev_cases) auto
    with sp have s2: "s = xs' @ a # CHR ''-'' # ys" and an: "a \<noteq> CHR ''-''" by auto
    from s2 have "a \<in> set s" by simp
    with chars sub an have la: "is_letter a" by blast
    from sp(1) ends(2) have yne: "ys \<noteq> []" by (cases ys) auto
    then obtain c ys' where ys: "ys = c # ys'" by (cases ys) auto
    have "\<not> is_letter c"
    proof
      assume lc: "is_letter c"
      from re_hyphenated_intro [OF la lc, of xs' ys'] have "re_hyphenated s"
        by (simp only: s2 ys)
      with nh' show False by simp
    qed
    moreover from s2 ys have "c \<in> set s" by simp
    ultimately have "c = CHR ''-''" using chars sub by blast
    then have "ys = [] \<or> \<not> is_word_char (hd ys)" by (simp add: ys char_class_defs)
    from re_trailing_intro [OF la this, of xs'] show ?thesis by (simp only: s2)
  qed
  from strip_hyphen_fixed [OF sne ends] na have na': "\<not> isalpha (strip_hyphen s)" by simp
  from na hy no' nh' tr' na' have "strip_loops s" by (simp add: strip_loops_def)
  then show ?thesis by (simp only: s_def)
qed

lemma strip_loops_never_returns: "strip_loops w \<Longrightarrow> nsyl n d w = None"
proof (induction n arbitrary: w)
  case 0
  show ?case by simp
next
  case (Suc n)
  from Suc.prems have "nsyl (Suc n) d w = nsyl n d (strip_hyphen w)"
    by (simp add: strip_loops_def)
  also from Suc.IH [OF strip_loops_closed [OF Suc.prems]] have "\<dots> = None" .
  finally show ?case .
qed

lemma sum_outcomes_returns:
  "\<forall>r \<in> set rs. r \<noteq> None \<Longrightarrow> sum_outcomes rs acc \<noteq> None"
  by (induction rs arbitrary: acc) (auto split: option.splits sum.splits)

lemma nsyl_returns:
  assumes "\<not> strip_loops w"
  shows "nsyl (Suc (Suc n)) d w \<noteq> None"
proof (cases "isalpha w \<or> CHR ''-'' \<notin> set w \<or> re_other w")
  case True
  then show ?thesis by auto
next
  case False
  then have f: "\<not> isalpha w" "CHR ''-'' \<in> set w" "\<not> re_other w" by auto
  show ?thesis
  proof (cases "re_hyphenated w")
    case True
    have "\<forall>r \<in> set (map (nsyl (Suc n) d) (split_on CHR ''-'' w)). r \<noteq> None"
      using nsyl_no_hyphen [OF split_on_no_sep] by (auto simp del: nsyl.simps)
    from sum_outcomes_returns [OF this, of 0] f True show ?thesis by simp
  next
    case nh: False
    show ?thesis
    proof (cases "re_trailing w")
      case True
      with f nh assms have "isalpha (strip_hyphen w)" by (simp add: strip_loops_def)
      with f nh True show ?thesis by simp
    next
      case False
      with f nh show ?thesis by simp
    qed
  qed
qed

lemma nsyl_returns_iff: "(\<exists>n. nsyl n d w \<noteq> None) \<longleftrightarrow> \<not> strip_loops w"
proof
  assume "\<exists>n. nsyl n d w \<noteq> None"
  then obtain n where "nsyl n d w \<noteq> None" by blast
  with strip_loops_never_returns [of w n d] show "\<not> strip_loops w" by blast
next
  assume "\<not> strip_loops w"
  from nsyl_returns [OF this, of 0 d] show "\<exists>n. nsyl n d w \<noteq> None" by blast
qed

subsection \<open>The rounded square root\<close>

text \<open>
  \<open>round_sqrt\<close> is the least \<open>r\<close> with \<open>k \<le> r\<^sup>2 + r\<close>, and that is the integer
  nearest to the real square root of \<open>k\<close>.
\<close>

lemma round_sqrt_from_least:
  "k \<le> fuel + r \<Longrightarrow> \<forall>r' < r. r' * r' + r' < k \<Longrightarrow>
   k \<le> round_sqrt_from fuel r k * round_sqrt_from fuel r k + round_sqrt_from fuel r k
   \<and> (\<forall>r' < round_sqrt_from fuel r k. r' * r' + r' < k)"
proof (induction fuel arbitrary: r)
  case 0
  then have "k \<le> r" by simp
  also have "r \<le> r * r + r" by simp
  finally show ?case using "0.prems"(2) by simp
next
  case (Suc fuel)
  show ?case
  proof (cases "k \<le> r * r + r")
    case True
    with Suc.prems(2) show ?thesis by simp
  next
    case False
    have "\<forall>r' < Suc r. r' * r' + r' < k"
      using Suc.prems(2) False by (auto simp: less_Suc_eq)
    moreover from Suc.prems(1) have "k \<le> fuel + Suc r" by simp
    ultimately show ?thesis using Suc.IH [of "Suc r"] False by simp
  qed
qed

lemma round_sqrt_least:
  "k \<le> round_sqrt k * round_sqrt k + round_sqrt k \<and> (\<forall>r' < round_sqrt k. r' * r' + r' < k)"
  unfolding round_sqrt_def by (rule round_sqrt_from_least) simp_all

text \<open>The result is the integer nearest to the square root.\<close>

lemma round_sqrt_nearest: "\<bar>real (round_sqrt k) - sqrt (real k)\<bar> < 1 / 2"
proof -
  define R where "R = round_sqrt k"
  from round_sqrt_least [of k] have up: "k \<le> R * R + R" and low: "\<forall>r' < R. r' * r' + r' < k"
    by (simp_all add: R_def)
  from up have "real k \<le> real (R * R + R)" by (simp only: of_nat_le_iff)
  then have "real k < (real R + 1 / 2)\<^sup>2" by (simp add: power2_eq_square algebra_simps)
  then have u: "sqrt (real k) < real R + 1 / 2" by (rule real_less_lsqrt [rotated]) simp
  have l: "real R - 1 / 2 < sqrt (real k)"
  proof (cases R)
    case 0
    have "0 \<le> sqrt (real k)" by simp
    then have "- (1 / 2) < sqrt (real k)" by linarith
    with 0 show ?thesis by simp
  next
    case (Suc r)
    with low have "r * r + r < k" by simp
    then have "real (r * r + r) + 1 \<le> real k"
      by (metis Suc_leI of_nat_Suc of_nat_le_iff add.commute)
    then have "(real R - 1 / 2)\<^sup>2 < real k"
      by (simp add: Suc power2_eq_square algebra_simps)
    then show ?thesis by (rule real_less_rsqrt)
  qed
  from u l have "\<bar>real R - sqrt (real k)\<bar> < 1 / 2" by linarith
  then show ?thesis by (simp only: R_def)
qed

end
